theory Spec2Isabelle
  imports Complex_Main
begin

section \<open>Errors and sources\<close>

text \<open>
  The exceptions the code can raise: the explicit \<^verbatim>\<open>raise Exception(msg)\<close> of
  \<^verbatim>\<open>DieDivider.__init__\<close>, Python's ZeroDivisionError of \<^verbatim>\<open>%\<close>, \<^verbatim>\<open>//\<close> and \<^verbatim>\<open>/\<close>,
  the StopIteration of \<^verbatim>\<open>next\<close> on an exhausted iterator, and the OverflowError of
  \<^verbatim>\<open>/\<close> on integers whose quotient is too large for a float.
\<close>

datatype error = Exception string | ZeroDivisionError | StopIteration | OverflowError

text \<open>
  A source die is an object with a \<^verbatim>\<open>roll()\<close> method that mutates the object and returns
  an integer or raises. It is modelled by a state transformer on the source's state.
  The read-only property \<^verbatim>\<open>source.sides\<close> is kept in the derived die's record.
\<close>

type_synonym 's roller = "'s \<Rightarrow> (error + int) \<times> 's"

text \<open>
  \<^verbatim>\<open>DieBase.__call__\<close>: \<^verbatim>\<open>[self.roll() for i in range(0, count)]\<close>. The rolls happen in
  order; the first exception aborts the comprehension.
\<close>

fun call :: "'s roller \<Rightarrow> nat \<Rightarrow> 's \<Rightarrow> (error + int list) \<times> 's" where
  "call roll 0 s = (Inr [], s)"
| "call roll (Suc count) s =
     (case roll s of
        (Inl e, s') \<Rightarrow> (Inl e, s')
      | (Inr r, s') \<Rightarrow>
          (case call roll count s' of
             (Inl e, s'') \<Rightarrow> (Inl e, s'')
           | (Inr rs, s'') \<Rightarrow> (Inr (r # rs), s'')))"

section \<open>DiePerfect\<close>

text \<open>
  \<^verbatim>\<open>DiePerfect.__each\<close>: with no range left the current prefix is returned; otherwise
  the first range is taken off, and for each of its values in order the value is appended
  to the prefix, the recursive result is appended to \<^verbatim>\<open>results\<close>, and the value is
  removed again.
\<close>

fun each :: "int list \<Rightarrow> int list list \<Rightarrow> int list" where
  "each current [] = current"
| "each current (rng # ranges) =
     concat (map (\<lambda>i. each (current @ [i]) ranges) rng)"

record DiePerfect =
  perfect_sides :: int
  perfect_num_dice :: int
  num_rolls :: nat
  rolls :: "int list"
  cycle_pos :: nat

text \<open>
  \<^verbatim>\<open>DiePerfect.__init__\<close>. \<^verbatim>\<open>rolls\<close> holds the sequence given to \<^verbatim>\<open>itertools.cycle\<close> and
  \<^verbatim>\<open>cycle_pos\<close> counts the elements the iterator has handed out.
\<close>

definition DiePerfect_init :: "int \<Rightarrow> int \<Rightarrow> DiePerfect" where
  "DiePerfect_init sides num_dice =
     \<lparr> perfect_sides = sides, perfect_num_dice = num_dice, num_rolls = 0,
       rolls = each [] (replicate (nat num_dice) [1..sides]), cycle_pos = 0 \<rparr>"

text \<open>
  \<^verbatim>\<open>DiePerfect.roll\<close>: the counter is incremented first, then \<^verbatim>\<open>next\<close> is called on the
  cycle, which raises StopIteration when the sequence is empty.
\<close>

definition DiePerfect_roll :: "DiePerfect roller" where
  "DiePerfect_roll d =
     (let d' = d\<lparr> num_rolls := num_rolls d + 1 \<rparr> in
      if rolls d = [] then (Inl StopIteration, d')
      else (Inr (rolls d ! (cycle_pos d mod length (rolls d))),
            d'\<lparr> cycle_pos := cycle_pos d + 1 \<rparr>))"

section \<open>DieDivider\<close>

text \<open>Python's \<^verbatim>\<open>'{}'.format(i)\<close> for an integer: its decimal digits, with a minus sign.\<close>

fun str_nat :: "nat \<Rightarrow> string" where
  "str_nat n = (if n < 10 then [''0123456789'' ! n]
                else str_nat (n div 10) @ [''0123456789'' ! (n mod 10)])"

declare str_nat.simps [simp del]

definition str_int :: "int \<Rightarrow> string" where
  "str_int i = (if i < 0 then ''-'' @ str_nat (nat (- i)) else str_nat (nat i))"

record DieDivider =
  divider_sides :: int
  divider_source_sides :: int

text \<open>
  \<^verbatim>\<open>DieDivider.__init__\<close>: \<^verbatim>\<open>source.sides % sides\<close> raises ZeroDivisionError for \<^verbatim>\<open>sides = 0\<close>;
  Python's \<^verbatim>\<open>%\<close> on integers is the floored remainder, as \<open>mod\<close> on \<open>int\<close>.
\<close>

definition DieDivider_init :: "int \<Rightarrow> int \<Rightarrow> error + DieDivider" where
  "DieDivider_init sides source_sides =
     (if sides = 0 then Inl ZeroDivisionError
      else if source_sides mod sides \<noteq> 0 then
        Inl (Exception (''Cannot divide a die from '' @ str_int source_sides
                        @ '' sides, to '' @ str_int sides @ '' sides.''))
      else Inr \<lparr> divider_sides = sides, divider_source_sides = source_sides \<rparr>)"

text \<open>
  Python's \<^verbatim>\<open>a / b\<close> on integers (true division, \<^verbatim>\<open>from __future__ import division\<close>)
  is the quotient rounded to the nearest IEEE 754 double, ties to the even significand.
  The definitions below compute that double for positive \<open>a\<close> and \<open>b\<close>.

  \<open>bit_length\<close> is \<^verbatim>\<open>int.bit_length\<close>. \<open>scaled a b p\<close> is the fraction \<open>(a / b) / 2 ^ p\<close>
  as a numerator and a denominator. \<open>binary_exponent a b\<close> is the \<open>e\<close> with
  \<open>2 ^ e \<le> a / b < 2 ^ (e + 1)\<close>. A double near \<open>a / b\<close> is a multiple of \<open>2 ^ p\<close> with
  \<open>p = max e (-1022) - 52\<close>: 53 significant bits, and the subnormal spacing
  \<open>2 ^ (-1074)\<close> below \<open>2 ^ (-1022)\<close>. \<open>round_half_even n d\<close> is the integer nearest to
  \<open>n / d\<close>, the even one on a tie. A rounded result of \<open>2 ^ 1024\<close> or more is not a
  double: Python raises OverflowError.
\<close>

fun bit_length :: "nat \<Rightarrow> nat" where
  "bit_length n = (if n = 0 then 0 else Suc (bit_length (n div 2)))"

declare bit_length.simps [simp del]

definition round_half_even :: "int \<Rightarrow> int \<Rightarrow> int" where
  "round_half_even n d =
     (let q = n div d; r = n mod d
      in if 2 * r < d then q
         else if d < 2 * r then q + 1
         else if even q then q else q + 1)"

definition scaled :: "int \<Rightarrow> int \<Rightarrow> int \<Rightarrow> int \<times> int" where
  "scaled a b p = (if 0 \<le> p then (a, b * 2 ^ nat p) else (a * 2 ^ nat (- p), b))"

definition binary_exponent :: "int \<Rightarrow> int \<Rightarrow> int" where
  "binary_exponent a b =
     (let d = int (bit_length (nat a)) - int (bit_length (nat b));
          (n, m) = scaled a b d
      in if m \<le> n then d else d - 1)"

definition round_to_double :: "int \<Rightarrow> int \<Rightarrow> error + rat" where
  "round_to_double a b =
     (let e = binary_exponent a b;
          p = max e (- 1022) - 52;
          (n, d) = scaled a b p;
          m = round_half_even n d
      in if 0 \<le> p then
           (if 2 ^ 1024 \<le> m * 2 ^ nat p then Inl OverflowError
            else Inr (of_int (m * 2 ^ nat p)))
         else Inr (of_int m / of_int (2 ^ nat (- p))))"

text \<open>
  \<^verbatim>\<open>a / b\<close> on integers: ZeroDivisionError for \<open>b = 0\<close>, zero for \<open>a = 0\<close>, and otherwise
  the rounded quotient of the absolute values with the sign of the exact quotient. The
  double is given by its value, a rational number.
\<close>

definition true_divide :: "int \<Rightarrow> int \<Rightarrow> error + rat" where
  "true_divide a b =
     (if b = 0 then Inl ZeroDivisionError
      else if a = 0 then Inr 0
      else case round_to_double \<bar>a\<bar> \<bar>b\<bar> of
             Inl e \<Rightarrow> Inl e
           | Inr x \<Rightarrow> Inr (if (a < 0) = (b < 0) then x else - x))"

text \<open>
  \<^verbatim>\<open>DieDivider.roll\<close>: \<^verbatim>\<open>divisor = self.source.sides // self.sides\<close>, then
  \<^verbatim>\<open>math.ceil(self.source.roll() / divisor)\<close>. The source is rolled before the
  division, so an exception of the division leaves the source rolled. \<^verbatim>\<open>math.ceil\<close> of a
  double is the exact ceiling of its value.
\<close>

definition DieDivider_roll :: "'s roller \<Rightarrow> DieDivider \<Rightarrow> 's roller" where
  "DieDivider_roll source_roll d s =
     (if divider_sides d = 0 then (Inl ZeroDivisionError, s)
      else
        let divisor = divider_source_sides d div divider_sides d in
        case source_roll s of
          (Inl e, s') \<Rightarrow> (Inl e, s')
        | (Inr r, s') \<Rightarrow>
            (case true_divide r divisor of
               Inl e \<Rightarrow> (Inl e, s')
             | Inr x \<Rightarrow> (Inr \<lceil>x\<rceil>, s')))"

section \<open>DiePower and DieCombo\<close>

text \<open>
  The search loop of \<^verbatim>\<open>DiePower.__init__\<close> and \<^verbatim>\<open>DieCombo.__init__\<close>:
  \<^verbatim>\<open>while True: if pow(source.sides, num_dice) >= sides: break; num_dice += 1\<close>.
  The loop has no bound, so a run that never leaves it is the value \<open>None\<close>.
\<close>

partial_function (option) num_dice_loop :: "int \<Rightarrow> int \<Rightarrow> nat \<Rightarrow> nat option" where
  "num_dice_loop source_sides sides num_dice =
     (if source_sides ^ num_dice \<ge> sides then Some num_dice
      else num_dice_loop source_sides sides (num_dice + 1))"

record DiePower =
  power_sides :: int
  power_source_sides :: int
  power_num_dice :: nat

definition DiePower_init :: "int \<Rightarrow> int \<Rightarrow> (error + DiePower) option" where
  "DiePower_init sides source_sides =
     (case num_dice_loop source_sides sides 0 of
        None \<Rightarrow> None
      | Some n \<Rightarrow>
          Some (Inr \<lparr> power_sides = sides, power_source_sides = source_sides,
                     power_num_dice = n \<rparr>))"

text \<open>
  The value \<^verbatim>\<open>DiePower.roll\<close> computes from one batch:
  \<^verbatim>\<open>sum([pow(self.source.sides, k) * (v - 1) for (k, v) in enumerate(rolls)])\<close>, plus one.
\<close>

definition DiePower_value :: "DiePower \<Rightarrow> int list \<Rightarrow> int" where
  "DiePower_value d rs =
     (let v = sum_list (map (\<lambda>(k, v). power_source_sides d ^ k * (v - 1))
                            (List.enumerate 0 rs));
          v = v + 1
      in v)"

text \<open>
  \<^verbatim>\<open>DiePower.roll\<close>: \<^verbatim>\<open>while True\<close> with \<^verbatim>\<open>continue\<close> on a value above \<^verbatim>\<open>sides\<close>. An
  exception of the source leaves the loop.
\<close>

partial_function (option) DiePower_roll ::
  "'s roller \<Rightarrow> DiePower \<Rightarrow> 's \<Rightarrow> ((error + int) \<times> 's) option" where
  "DiePower_roll source_roll d s =
     (case call source_roll (power_num_dice d) s of
        (Inl e, s') \<Rightarrow> Some (Inl e, s')
      | (Inr rs, s') \<Rightarrow>
          (let v = DiePower_value d rs in
           if v > power_sides d then DiePower_roll source_roll d s'
           else Some (Inr v, s')))"

record DieCombo =
  combo_sides :: int
  combo_source_sides :: int
  combo_num_dice :: nat
  divider :: int

text \<open>
  \<^verbatim>\<open>DieCombo.__init__\<close>: the same search, then
  \<^verbatim>\<open>self.divider = pow(self.source.sides, self.num_dice) // self.sides\<close>, which raises
  ZeroDivisionError for \<^verbatim>\<open>sides = 0\<close>. Python's \<^verbatim>\<open>//\<close> on integers is the floored
  quotient, as \<open>div\<close> on \<open>int\<close>.
\<close>

definition DieCombo_init :: "int \<Rightarrow> int \<Rightarrow> (error + DieCombo) option" where
  "DieCombo_init sides source_sides =
     (case num_dice_loop source_sides sides 0 of
        None \<Rightarrow> None
      | Some n \<Rightarrow>
          if sides = 0 then Some (Inl ZeroDivisionError)
          else Some (Inr \<lparr> combo_sides = sides, combo_source_sides = source_sides,
                          combo_num_dice = n, divider = source_sides ^ n div sides \<rparr>))"

text \<open>
  The raw composite of \<^verbatim>\<open>DieCombo.roll\<close>:
  \<^verbatim>\<open>sum([pow(self.source.sides, self.num_dice-k-1) * (v - 1) for (k, v) in enumerate(rolls)])\<close>.
  The batch has \<^verbatim>\<open>num_dice\<close> elements, so the exponent is never negative.
\<close>

definition DieCombo_raw :: "DieCombo \<Rightarrow> int list \<Rightarrow> int" where
  "DieCombo_raw d rs =
     sum_list (map (\<lambda>(k, v). combo_source_sides d ^ (combo_num_dice d - k - 1) * (v - 1))
                   (List.enumerate 0 rs))"

text \<open>
  \<^verbatim>\<open>DieCombo.roll\<close>: \<^verbatim>\<open>v //= self.divider; v += 1\<close>, and \<^verbatim>\<open>continue\<close> on a value above
  \<^verbatim>\<open>sides\<close>.
\<close>

partial_function (option) DieCombo_roll ::
  "'s roller \<Rightarrow> DieCombo \<Rightarrow> 's \<Rightarrow> ((error + int) \<times> 's) option" where
  "DieCombo_roll source_roll d s =
     (case call source_roll (combo_num_dice d) s of
        (Inl e, s') \<Rightarrow> Some (Inl e, s')
      | (Inr rs, s') \<Rightarrow>
          (let v = DieCombo_raw d rs in
           if divider d = 0 then Some (Inl ZeroDivisionError, s')
           else
             let v = v div divider d;
                 v = v + 1
             in if v > combo_sides d then DieCombo_roll source_roll d s'
                else Some (Inr v, s')))"

section \<open>Definitions used to state the properties\<close>

text \<open>
  The state of the source after \<open>j\<close> batches of \<open>n\<close> rolls each have been drawn from
  it, starting in state \<open>s\<close>.
\<close>

fun skip_batches :: "'s roller \<Rightarrow> nat \<Rightarrow> nat \<Rightarrow> 's \<Rightarrow> 's" where
  "skip_batches roll n 0 s = s"
| "skip_batches roll n (Suc j) s = skip_batches roll n j (snd (call roll n s))"

text \<open>
  The composites as the specification words them. Least-significant digit first: the draw
  \<open>d\<^sub>k\<close> at position \<open>k\<close> (from 0) contributes \<open>b ^ k * (d\<^sub>k - 1)\<close>, and one is added
  to the sum. Most-significant digit first: the \<open>i\<close>-th draw of \<open>n\<close> contributes
  \<open>b ^ (n - 1 - i) * (d\<^sub>i - 1)\<close>.
\<close>

definition lsd_composite :: "int \<Rightarrow> int list \<Rightarrow> int" where
  "lsd_composite b ds = 1 + (\<Sum>k<length ds. b ^ k * (ds ! k - 1))"

definition msd_composite :: "int \<Rightarrow> int list \<Rightarrow> int" where
  "msd_composite b ds = (\<Sum>i<length ds. b ^ (length ds - 1 - i) * (ds ! i - 1))"

text \<open>
  The number of raw composites \<open>c\<close> of the range \<open>[0, source_sides ^ num_dice - 1]\<close> that
  a roll rejects: \<^verbatim>\<open>DiePower.roll\<close> rejects when \<open>c + 1 > sides\<close>, \<^verbatim>\<open>DieCombo.roll\<close> when
  \<open>c div divider + 1 > sides\<close>.
\<close>

definition DiePower_rejected :: "int \<Rightarrow> int \<Rightarrow> nat \<Rightarrow> nat" where
  "DiePower_rejected sides source_sides n =
     length (filter (\<lambda>c. c + 1 > sides) [0 .. source_sides ^ n - 1])"

definition DieCombo_rejected :: "int \<Rightarrow> int \<Rightarrow> nat \<Rightarrow> nat" where
  "DieCombo_rejected sides source_sides n =
     length (filter (\<lambda>c. c div (source_sides ^ n div sides) + 1 > sides)
                    [0 .. source_sides ^ n - 1])"

text \<open>
  All batches of \<open>n\<close> values that a source of the given number of sides can return,
  each value in \<open>[1, source_sides]\<close>, and among them the number of batches that
  \<^verbatim>\<open>DiePower.roll\<close> rejects (\<^verbatim>\<open>v > self.sides\<close> after \<^verbatim>\<open>v += 1\<close>) and that
  \<^verbatim>\<open>DieCombo.roll\<close> rejects (\<^verbatim>\<open>v > self.sides\<close> after \<^verbatim>\<open>v //= self.divider; v += 1\<close>).
\<close>

definition batches :: "int \<Rightarrow> nat \<Rightarrow> int list list" where
  "batches source_sides n = product_lists (replicate n [1..source_sides])"

definition DiePower_rejected_batches :: "DiePower \<Rightarrow> nat" where
  "DiePower_rejected_batches d =
     length (filter (\<lambda>rs. DiePower_value d rs > power_sides d)
                    (batches (power_source_sides d) (power_num_dice d)))"

definition DieCombo_rejected_batches :: "DieCombo \<Rightarrow> nat" where
  "DieCombo_rejected_batches d =
     length (filter (\<lambda>rs. DieCombo_raw d rs div divider d + 1 > combo_sides d)
                    (batches (combo_source_sides d) (combo_num_dice d)))"

text \<open>
  The expected number of source draws per accepted roll of a rejection loop that draws
  \<open>n\<close> values per attempt and rejects \<open>rejected\<close> of \<open>composites\<close> equally likely
  composites:
  the attempts are geometrically distributed with success probability
  \<open>(composites - rejected) / composites\<close>.
\<close>

definition expected_draws :: "nat \<Rightarrow> int \<Rightarrow> nat \<Rightarrow> rat" where
  "expected_draws n composites rejected =
     of_nat n * of_int composites / of_int (composites - int rejected)"

section \<open>The search for \<open>num_dice\<close>\<close>

lemma num_dice_loop_found:
  assumes "sides \<le> S ^ m" and "\<forall>k. n \<le> k \<and> k < m \<longrightarrow> S ^ k < sides" and "n \<le> m"
  shows "num_dice_loop S sides n = Some m"
  using assms
proof (induction "m - n" arbitrary: n)
  case 0
  then have "n = m" by simp
  with 0 show ?case by (simp add: num_dice_loop.simps)
next
  case (Suc x)
  then have lt: "n < m" by simp
  with Suc.prems have "S ^ n < sides" by simp
  moreover have "num_dice_loop S sides (n + 1) = Some m"
    using Suc.hyps(1)[of "n + 1"] Suc.hyps(2) Suc.prems lt by simp
  ultimately show ?case by (subst num_dice_loop.simps) simp
qed

lemma num_dice_loop_Some:
  assumes "num_dice_loop S sides n = Some m"
  shows "n \<le> m \<and> sides \<le> S ^ m \<and> (\<forall>k. n \<le> k \<and> k < m \<longrightarrow> S ^ k < sides)"
proof (rule num_dice_loop.raw_induct
    [where P = "\<lambda>S sides n m. n \<le> m \<and> sides \<le> S ^ m \<and> (\<forall>k. n \<le> k \<and> k < m \<longrightarrow> S ^ k < sides)",
     OF _ assms])
  fix f :: "int \<Rightarrow> int \<Rightarrow> nat \<Rightarrow> nat option" and S sides :: int and n m :: nat
  assume IH: "\<And>S sides n m. f S sides n = Some m \<Longrightarrow>
                n \<le> m \<and> sides \<le> S ^ m \<and> (\<forall>k. n \<le> k \<and> k < m \<longrightarrow> S ^ k < sides)"
    and eq: "(if sides \<le> S ^ n then Some n else f S sides (n + 1)) = Some m"
  show "n \<le> m \<and> sides \<le> S ^ m \<and> (\<forall>k. n \<le> k \<and> k < m \<longrightarrow> S ^ k < sides)"
  proof (cases "sides \<le> S ^ n")
    case True
    with eq show ?thesis by simp
  next
    case False
    with eq have "f S sides (n + 1) = Some m" by simp
    from IH[OF this] have a: "n + 1 \<le> m" and b: "sides \<le> S ^ m"
      and c: "\<And>k. n + 1 \<le> k \<Longrightarrow> k < m \<Longrightarrow> S ^ k < sides" by auto
    have "S ^ k < sides" if "n \<le> k" "k < m" for k
    proof (cases "k = n")
      case True
      with False show ?thesis by simp
    next
      case False
      with that c[of k] show ?thesis by simp
    qed
    with a b show ?thesis by simp
  qed
qed

lemma num_dice_loop_None:
  assumes "\<forall>k\<ge>n. S ^ k < sides"
  shows "num_dice_loop S sides n = None"
proof (rule ccontr)
  assume "num_dice_loop S sides n \<noteq> None"
  then obtain m where "num_dice_loop S sides n = Some m" by auto
  from num_dice_loop_Some[OF this] assms show False by fastforce
qed

lemma pow_reaches:
  assumes "2 \<le> (S::int)"
  shows "\<exists>m. sides \<le> S ^ m"
proof -
  have "sides \<le> int (nat sides)" by simp
  also have "\<dots> < 2 ^ nat sides" by (rule of_nat_less_two_power)
  also have "\<dots> \<le> S ^ nat sides" using assms by (intro power_mono) auto
  finally show ?thesis by (blast intro: less_imp_le)
qed

lemma num_dice_loop_Least:
  assumes "sides \<le> S ^ m"
  shows "num_dice_loop S sides 0 = Some (LEAST k. sides \<le> S ^ k)"
proof -
  define n where "n = (LEAST k. sides \<le> S ^ k)"
  have n: "sides \<le> S ^ n" unfolding n_def using assms by (rule LeastI)
  have lt: "S ^ k < sides" if "k < n" for k
    using not_less_Least[of k "\<lambda>k. sides \<le> S ^ k"] that unfolding n_def by simp
  have "num_dice_loop S sides 0 = Some n"
    by (rule num_dice_loop_found) (use n lt in auto)
  then show ?thesis unfolding n_def .
qed

lemma num_dice_loop_one: "num_dice_loop S 1 0 = Some 0"
  by (simp add: num_dice_loop.simps)

section \<open>The enumeration die\<close>

lemma each_product_lists:
  "each current ranges = concat (map ((@) current) (product_lists ranges))"
proof (induction ranges arbitrary: current)
  case Nil
  show ?case by simp
next
  case (Cons r rs)
  have "concat (map (\<lambda>i. each (current @ [i]) rs) r)
        = concat (map ((@) current) (product_lists (r # rs)))"
    by (induction r) (simp_all add: Cons.IH comp_def)
  then show ?case by simp
qed

lemma call_DiePerfect:
  "rolls d \<noteq> [] \<Longrightarrow>
   call DiePerfect_roll n d =
     (Inr (map (\<lambda>i. rolls d ! ((cycle_pos d + i) mod length (rolls d))) [0..<n]),
      d\<lparr> num_rolls := num_rolls d + n, cycle_pos := cycle_pos d + n \<rparr>)"
proof (induction n arbitrary: d)
  case 0
  then show ?case by simp
next
  case (Suc n)
  let ?d' = "d\<lparr> num_rolls := num_rolls d + 1, cycle_pos := cycle_pos d + 1 \<rparr>"
  have r: "DiePerfect_roll d = (Inr (rolls d ! (cycle_pos d mod length (rolls d))), ?d')"
    using Suc.prems by (simp add: DiePerfect_roll_def Let_def)
  have "rolls ?d' \<noteq> []" using Suc.prems by simp
  from Suc.IH [OF this] r show ?case
    by (simp add: map_upt_Suc del: upt_Suc)
qed

lemma rolls_2d2: "rolls (DiePerfect_init 2 2) = [1, 1, 1, 2, 2, 1, 2, 2]"
  by (simp add: DiePerfect_init_def upto.simps numeral_2_eq_2)

text \<open>
  C9. The enumeration die built with \<open>sides = 2\<close> and \<open>num_dice = 2\<close> cycles over the
  sequence \<open>[1,1, 1,2, 2,1, 2,2]\<close>: its first 8 rolls are that sequence, and for every
  \<open>n\<close> the first \<open>n\<close> rolls are the sequence repeated cyclically, the \<open>i\<close>-th roll
  (counted from 0) being element \<open>i mod 8\<close>. In general the sequence of an enumeration
  die is the concatenation of the tuples of the Cartesian product of \<open>num_dice\<close> copies
  of \<open>[1..sides]\<close> in lexicographic order, handed out one number per roll.
\<close>

theorem DiePerfect_2d2_cycle:
  "fst (call DiePerfect_roll 8 (DiePerfect_init 2 2)) = Inr [1, 1, 1, 2, 2, 1, 2, 2]
   \<and> (\<forall>n. fst (call DiePerfect_roll n (DiePerfect_init 2 2))
            = Inr (map (\<lambda>i. [1, 1, 1, 2, 2, 1, 2, 2] ! (i mod 8)) [0..<n]))
   \<and> (\<forall>sides num_dice.
         rolls (DiePerfect_init sides num_dice)
           = concat (product_lists (replicate (nat num_dice) [1..sides])))"
proof -
  have ne: "rolls (DiePerfect_init 2 2) \<noteq> []"
    by (simp add: rolls_2d2)
  have cyc: "fst (call DiePerfect_roll n (DiePerfect_init 2 2))
               = Inr (map (\<lambda>i. [1, 1, 1, 2, 2, 1, 2, 2] ! (i mod 8)) [0..<n])" for n
    by (simp add: call_DiePerfect[OF ne] rolls_2d2) (simp add: DiePerfect_init_def)
  have "map (\<lambda>i. [1, 1, 1, 2, 2, 1, 2, 2 :: int] ! (i mod 8)) [0..<8] = [1, 1, 1, 2, 2, 1, 2, 2]"
    by (simp add: upt_rec)
  with cyc[of 8] have first: "fst (call DiePerfect_roll 8 (DiePerfect_init 2 2))
      = Inr [1, 1, 1, 2, 2, 1, 2, 2]"
    by simp
  have app: "(@) ([] :: int list) = id"
    by (rule ext) simp
  have "rolls (DiePerfect_init sides num_dice)
          = concat (product_lists (replicate (nat num_dice) [1..sides]))" for sides num_dice
    by (simp add: DiePerfect_init_def each_product_lists app)
  with first cyc show ?thesis by blast
qed

section \<open>Rolls of the radix converter\<close>

lemma sum_list_enumerate:
  "sum_list (map (\<lambda>(k, v). g k v) (List.enumerate 0 xs)) = (\<Sum>k<length xs. g k (xs ! k) :: int)"
  by (simp add: sum_list_sum_nth enumerate_eq_zip atLeast0LessThan)

lemma DiePower_value_lsd:
  "DiePower_value d rs = lsd_composite (power_source_sides d) rs"
  by (simp add: DiePower_value_def lsd_composite_def sum_list_enumerate)

lemma call_length:
  "call src n s = (Inr ds, s') \<Longrightarrow> length ds = n"
  by (induction n arbitrary: s ds s') (auto split: prod.splits sum.splits)

lemma DieCombo_raw_msd:
  "length rs = combo_num_dice d \<Longrightarrow> DieCombo_raw d rs = msd_composite (combo_source_sides d) rs"
  by (simp add: DieCombo_raw_def msd_composite_def sum_list_enumerate)

lemma DiePower_roll_accept:
  assumes "call src (power_num_dice d) s = (Inr ds, s')"
    and "lsd_composite (power_source_sides d) ds \<le> power_sides d"
  shows "DiePower_roll src d s = Some (Inr (lsd_composite (power_source_sides d) ds), s')"
  using assms by (subst DiePower_roll.simps) (simp add: DiePower_value_lsd)

lemma DiePower_roll_reject:
  assumes "fst (call src (power_num_dice d) s) = Inr ds"
    and "lsd_composite (power_source_sides d) ds > power_sides d"
  shows "DiePower_roll src d s = DiePower_roll src d (snd (call src (power_num_dice d) s))"
proof -
  obtain s1 where "call src (power_num_dice d) s = (Inr ds, s1)"
    using assms(1) by (cases "call src (power_num_dice d) s") auto
  with assms(2) show ?thesis
    by (subst DiePower_roll.simps) (simp add: DiePower_value_lsd)
qed

lemma skip_batches_DiePerfect:
  "rolls d \<noteq> [] \<Longrightarrow>
   skip_batches DiePerfect_roll n j d
     = d\<lparr> num_rolls := num_rolls d + j * n, cycle_pos := cycle_pos d + j * n \<rparr>"
  by (induction j arbitrary: d) (simp_all add: call_DiePerfect add.assoc)

lemma lsd_composite_pair: "lsd_composite b [x, y] = 1 + ((x - 1) + b * (y - 1))"
  by (simp add: lsd_composite_def lessThan_Suc numeral_2_eq_2)

lemma DiePower_roll_Some:
  assumes "DiePower_roll src d s = Some y"
  shows "\<forall>v s'. y = (Inr v, s') \<longrightarrow>
           (\<exists>ds s0. call src (power_num_dice d) s0 = (Inr ds, s')
                    \<and> v = DiePower_value d ds \<and> v \<le> power_sides d)"
proof (rule DiePower_roll.raw_induct
    [where P = "\<lambda>src d s y. \<forall>v s'. y = (Inr v, s') \<longrightarrow>
           (\<exists>ds s0. call src (power_num_dice d) s0 = (Inr ds, s')
                    \<and> v = DiePower_value d ds \<and> v \<le> power_sides d)",
     OF _ assms])
  fix f :: "'a roller \<Rightarrow> DiePower \<Rightarrow> 'a \<Rightarrow> ((error + int) \<times> 'a) option"
    and src :: "'a roller" and d s y
  assume IH: "\<And>src d s y. f src d s = Some y \<Longrightarrow>
      \<forall>v s'. y = (Inr v, s') \<longrightarrow>
           (\<exists>ds s0. call src (power_num_dice d) s0 = (Inr ds, s')
                    \<and> v = DiePower_value d ds \<and> v \<le> power_sides d)"
    and eq: "(case call src (power_num_dice d) s of
                (Inl e, s') \<Rightarrow> Some (Inl e, s')
              | (Inr rs, s') \<Rightarrow>
                  (let v = DiePower_value d rs in
                   if v > power_sides d then f src d s'
                   else Some (Inr v, s'))) = Some y"
  obtain r s1 where c: "call src (power_num_dice d) s = (r, s1)"
    by (cases "call src (power_num_dice d) s")
  show "\<forall>v s'. y = (Inr v, s') \<longrightarrow>
           (\<exists>ds s0. call src (power_num_dice d) s0 = (Inr ds, s')
                    \<and> v = DiePower_value d ds \<and> v \<le> power_sides d)"
  proof (cases r)
    case (Inl e)
    with eq c show ?thesis by auto
  next
    case (Inr rs)
    show ?thesis
    proof (cases "DiePower_value d rs > power_sides d")
      case True
      with eq c Inr have "f src d s1 = Some y" by simp
      from IH[OF this] show ?thesis .
    next
      case False
      with eq c Inr have "y = (Inr (DiePower_value d rs), s1)" by auto
      with c Inr False show ?thesis by auto
    qed
  qed
qed

lemma DieCombo_roll_Some:
  assumes "DieCombo_roll src d s = Some y"
  shows "\<forall>v s'. y = (Inr v, s') \<longrightarrow>
           (\<exists>ds s0. call src (combo_num_dice d) s0 = (Inr ds, s') \<and> divider d \<noteq> 0
                    \<and> v = DieCombo_raw d ds div divider d + 1 \<and> v \<le> combo_sides d)"
proof (rule DieCombo_roll.raw_induct
    [where P = "\<lambda>src d s y. \<forall>v s'. y = (Inr v, s') \<longrightarrow>
           (\<exists>ds s0. call src (combo_num_dice d) s0 = (Inr ds, s') \<and> divider d \<noteq> 0
                    \<and> v = DieCombo_raw d ds div divider d + 1 \<and> v \<le> combo_sides d)",
     OF _ assms])
  fix f :: "'a roller \<Rightarrow> DieCombo \<Rightarrow> 'a \<Rightarrow> ((error + int) \<times> 'a) option"
    and src :: "'a roller" and d s y
  assume IH: "\<And>src d s y. f src d s = Some y \<Longrightarrow>
      \<forall>v s'. y = (Inr v, s') \<longrightarrow>
           (\<exists>ds s0. call src (combo_num_dice d) s0 = (Inr ds, s') \<and> divider d \<noteq> 0
                    \<and> v = DieCombo_raw d ds div divider d + 1 \<and> v \<le> combo_sides d)"
    and eq: "(case call src (combo_num_dice d) s of
        (Inl e, s') \<Rightarrow> Some (Inl e, s')
      | (Inr rs, s') \<Rightarrow>
          (let v = DieCombo_raw d rs in
           if divider d = 0 then Some (Inl ZeroDivisionError, s')
           else
             let v = v div divider d;
                 v = v + 1
             in if v > combo_sides d then f src d s'
                else Some (Inr v, s'))) = Some y"
  obtain r s1 where c: "call src (combo_num_dice d) s = (r, s1)"
    by (cases "call src (combo_num_dice d) s")
  show "\<forall>v s'. y = (Inr v, s') \<longrightarrow>
           (\<exists>ds s0. call src (combo_num_dice d) s0 = (Inr ds, s') \<and> divider d \<noteq> 0
                    \<and> v = DieCombo_raw d ds div divider d + 1 \<and> v \<le> combo_sides d)"
  proof (cases r)
    case (Inl e)
    with eq c show ?thesis by auto
  next
    case (Inr rs)
    show ?thesis
    proof (cases "divider d = 0")
      case True
      with eq c Inr show ?thesis by auto
    next
      case nz: False
      show ?thesis
      proof (cases "DieCombo_raw d rs div divider d + 1 > combo_sides d")
        case True
        with eq c Inr nz have "f src d s1 = Some y" by (simp add: Let_def)
        from IH[OF this] show ?thesis .
      next
        case False
        with eq c Inr nz have "y = (Inr (DieCombo_raw d rs div divider d + 1), s1)"
          by (auto simp: Let_def)
        with c Inr False nz show ?thesis by auto
      qed
    qed
  qed
qed

lemma call_range:
  assumes "\<forall>s r s'. src s = (Inr r, s') \<longrightarrow> 1 \<le> r \<and> r \<le> S"
  shows "call src n s = (Inr ds, s') \<Longrightarrow> \<forall>x\<in>set ds. 1 \<le> x \<and> x \<le> S"
proof (induction n arbitrary: s ds s')
  case 0
  then show ?case by simp
next
  case (Suc n)
  from Suc.prems obtain r s1 rs where a: "src s = (Inr r, s1)"
    and b: "call src n s1 = (Inr rs, s')" and c: "ds = r # rs"
    by (auto split: prod.splits sum.splits)
  from assms a have "1 \<le> r \<and> r \<le> S" by blast
  with Suc.IH[OF b] c show ?case by simp
qed

lemma lsd_composite_ge_1:
  assumes "\<forall>x\<in>set ds. 1 \<le> x \<and> x \<le> S"
  shows "1 \<le> lsd_composite S ds"
proof -
  have "0 \<le> S ^ k * (ds ! k - 1)" if "k < length ds" for k
  proof -
    from that assms have "1 \<le> ds ! k" "ds ! k \<le> S" by auto
    then show ?thesis by simp
  qed
  then have "0 \<le> (\<Sum>k<length ds. S ^ k * (ds ! k - 1))"
    by (intro sum_nonneg) simp
  then show ?thesis by (simp add: lsd_composite_def)
qed

lemma msd_composite_ge_0:
  assumes "\<forall>x\<in>set ds. 1 \<le> x \<and> x \<le> S"
  shows "0 \<le> msd_composite S ds"
proof -
  have "0 \<le> S ^ (length ds - 1 - k) * (ds ! k - 1)" if "k < length ds" for k
  proof -
    from that assms have "1 \<le> ds ! k" "ds ! k \<le> S" by auto
    then show ?thesis by simp
  qed
  then show ?thesis unfolding msd_composite_def
    by (intro sum_nonneg) simp
qed

lemma DieCombo_init_Some:
  assumes "DieCombo_init sides S = Some (Inr d)"
  shows "sides \<noteq> 0" "combo_sides d = sides" "combo_source_sides d = S"
    "sides \<le> S ^ combo_num_dice d" "\<forall>k<combo_num_dice d. S ^ k < sides"
    "divider d = S ^ combo_num_dice d div sides"
proof -
  from assms obtain n where n: "num_dice_loop S sides 0 = Some n"
    by (auto simp: DieCombo_init_def split: option.splits)
  from assms n show nz: "sides \<noteq> 0"
    by (auto simp: DieCombo_init_def split: if_splits)
  from assms n nz have d: "d = \<lparr> combo_sides = sides, combo_source_sides = S,
       combo_num_dice = n, divider = S ^ n div sides \<rparr>"
    by (simp add: DieCombo_init_def)
  from d show "combo_sides d = sides" "combo_source_sides d = S"
    "divider d = S ^ combo_num_dice d div sides" by simp_all
  from num_dice_loop_Some[OF n] d show "sides \<le> S ^ combo_num_dice d"
    "\<forall>k<combo_num_dice d. S ^ k < sides" by simp_all
qed

lemma DieCombo_init_divider:
  assumes "DieCombo_init sides S = Some (Inr d)"
  shows "(0 < sides \<longrightarrow> 1 \<le> divider d) \<and> (sides < 0 \<longrightarrow> combo_num_dice d = 0 \<and> divider d = - 1)"
proof -
  note f = DieCombo_init_Some[OF assms]
  have "1 \<le> divider d" if "0 < sides"
  proof -
    have "sides div sides \<le> S ^ combo_num_dice d div sides"
      using f(4) that by (intro zdiv_mono1) auto
    with that f(6) show ?thesis by simp
  qed
  moreover have "combo_num_dice d = 0 \<and> divider d = - 1" if "sides < 0"
  proof -
    have z: "combo_num_dice d = 0"
    proof (rule ccontr)
      assume "combo_num_dice d \<noteq> 0"
      with f(5) have "S ^ 0 < sides" by blast
      with that show False by simp
    qed
    have "(1::int) div sides = - 1"
      using that by (intro div_pos_neg_trivial) auto
    with z f(6) show ?thesis by simp
  qed
  ultimately show ?thesis by blast
qed

lemma DieCombo_roll_accept:
  assumes "call src (combo_num_dice d) s = (Inr ds, s')" and "divider d \<noteq> 0"
    and "msd_composite (combo_source_sides d) ds div divider d + 1 \<le> combo_sides d"
  shows "DieCombo_roll src d s
           = Some (Inr (msd_composite (combo_source_sides d) ds div divider d + 1), s')"
proof -
  have "DieCombo_raw d ds = msd_composite (combo_source_sides d) ds"
    using call_length[OF assms(1)] by (simp add: DieCombo_raw_msd)
  with assms show ?thesis
    by (subst DieCombo_roll.simps) (simp add: Let_def)
qed

lemma DieCombo_roll_reject:
  assumes "fst (call src (combo_num_dice d) s) = Inr ds" and "divider d \<noteq> 0"
    and "msd_composite (combo_source_sides d) ds div divider d + 1 > combo_sides d"
  shows "DieCombo_roll src d s = DieCombo_roll src d (snd (call src (combo_num_dice d) s))"
proof -
  obtain s1 where c: "call src (combo_num_dice d) s = (Inr ds, s1)"
    using assms(1) by (cases "call src (combo_num_dice d) s") auto
  have "DieCombo_raw d ds = msd_composite (combo_source_sides d) ds"
    using call_length[OF c] by (simp add: DieCombo_raw_msd)
  with c assms(2,3) show ?thesis
    by (subst DieCombo_roll.simps) (simp add: Let_def)
qed

lemma DieCombo_roll_skip:
  assumes "divider d \<noteq> 0"
    and "\<forall>i<j. \<exists>ds. fst (call src (combo_num_dice d)
                               (skip_batches src (combo_num_dice d) i s)) = Inr ds
            \<and> msd_composite (combo_source_sides d) ds div divider d + 1 > combo_sides d"
  shows "DieCombo_roll src d s
           = DieCombo_roll src d (skip_batches src (combo_num_dice d) j s)"
  using assms(2)
proof (induction j arbitrary: s)
  case 0
  show ?case by simp
next
  case (Suc j)
  let ?n = "combo_num_dice d"
  let ?s1 = "snd (call src ?n s)"
  from Suc.prems have "\<exists>ds. fst (call src ?n (skip_batches src ?n 0 s)) = Inr ds
        \<and> msd_composite (combo_source_sides d) ds div divider d + 1 > combo_sides d"
    by blast
  then obtain ds0 where "fst (call src ?n s) = Inr ds0"
    and "msd_composite (combo_source_sides d) ds0 div divider d + 1 > combo_sides d"
    by auto
  then have step: "DieCombo_roll src d s = DieCombo_roll src d ?s1"
    using assms(1) by (intro DieCombo_roll_reject) auto
  have "\<forall>i<j. \<exists>ds. fst (call src ?n (skip_batches src ?n i ?s1)) = Inr ds
            \<and> msd_composite (combo_source_sides d) ds div divider d + 1 > combo_sides d"
    using Suc.prems by (auto dest: spec[where x = "Suc i" for i])
  from Suc.IH[OF this] step show ?case by simp
qed

lemma rolls_2d6: "rolls (DiePerfect_init 6 2) =
  [1,1, 1,2, 1,3, 1,4, 1,5, 1,6, 2,1, 2,2, 2,3, 2,4, 2,5, 2,6, 3,1, 3,2, 3,3, 3,4, 3,5, 3,6,
   4,1, 4,2, 4,3, 4,4, 4,5, 4,6, 5,1, 5,2, 5,3, 5,4, 5,5, 5,6, 6,1, 6,2, 6,3, 6,4, 6,5, 6,6]"
  by (simp add: DiePerfect_init_def upto.simps numeral_2_eq_2)

lemma msd_composite_pair: "msd_composite b [x, y] = b * (x - 1) + (y - 1)"
  by (simp add: msd_composite_def lessThan_Suc numeral_2_eq_2)

lemma DieCombo_init_16_6:
  "DieCombo_init 16 6 = Some (Inr \<lparr> combo_sides = 16, combo_source_sides = 6,
                                     combo_num_dice = 2, divider = 2 \<rparr>)"
  by (simp add: DieCombo_init_def num_dice_loop.simps)

text \<open>
  C1. A roll of \<^verbatim>\<open>DiePower\<close> draws batches of \<open>num_dice\<close> values from the source. The
  value of a batch is the least-significant-digit-first composite
  \<open>1 + (\<Sum>k. source_sides ^ k * (d\<^sub>k - 1))\<close>. When the first \<open>j\<close> batches all have a
  composite above \<open>sides\<close> and the next batch has one that is at most \<open>sides\<close>, the
  roll returns the composite of that batch, the source being left in the state after
  it, and the batch has \<open>num_dice\<close> values. With \<open>j = 0\<close> this is the immediate return.
\<close>

theorem DiePower_roll_first_accepted:
  assumes "\<forall>i<j. \<exists>ds. fst (call src (power_num_dice d)
                               (skip_batches src (power_num_dice d) i s)) = Inr ds
                       \<and> lsd_composite (power_source_sides d) ds > power_sides d"
    and "call src (power_num_dice d) (skip_batches src (power_num_dice d) j s) = (Inr ds, s')"
    and "lsd_composite (power_source_sides d) ds \<le> power_sides d"
  shows "DiePower_roll src d s = Some (Inr (lsd_composite (power_source_sides d) ds), s')
         \<and> length ds = power_num_dice d"
proof -
  have "DiePower_roll src d s = Some (Inr (lsd_composite (power_source_sides d) ds), s')"
    using assms
  proof (induction j arbitrary: s)
    case 0
    then show ?case by (simp add: DiePower_roll_accept)
  next
    case (Suc j)
    let ?n = "power_num_dice d"
    let ?s1 = "snd (call src ?n s)"
    from Suc.prems(1) have "\<exists>ds. fst (call src ?n (skip_batches src ?n 0 s)) = Inr ds
        \<and> lsd_composite (power_source_sides d) ds > power_sides d"
      by blast
    then obtain ds0 where "fst (call src ?n s) = Inr ds0"
      and "lsd_composite (power_source_sides d) ds0 > power_sides d"
      by auto
    then have step: "DiePower_roll src d s = DiePower_roll src d ?s1"
      by (rule DiePower_roll_reject)
    have "\<forall>i<j. \<exists>ds. fst (call src ?n (skip_batches src ?n i ?s1)) = Inr ds
                    \<and> lsd_composite (power_source_sides d) ds > power_sides d"
      using Suc.prems(1) by (auto dest: spec[where x = "Suc i" for i])
    moreover have "call src ?n (skip_batches src ?n j ?s1) = (Inr ds, s')"
      using Suc.prems(2) by simp
    ultimately have "DiePower_roll src d ?s1
        = Some (Inr (lsd_composite (power_source_sides d) ds), s')"
      using Suc.prems(3) by (rule Suc.IH)
    with step show ?case by simp
  qed
  moreover have "length ds = power_num_dice d"
    using assms(2) by (rule call_length)
  ultimately show ?thesis by simp
qed

theorem DiePower_roll_first_accepted_witness:
  "DiePower_roll DiePerfect_roll
     \<lparr> power_sides = 3, power_source_sides = 2, power_num_dice = 2 \<rparr>
     ((DiePerfect_init 2 2)\<lparr> num_rolls := 6, cycle_pos := 6 \<rparr>)
   = Some (Inr 1, (DiePerfect_init 2 2)\<lparr> num_rolls := 10, cycle_pos := 10 \<rparr>)"
proof -
  let ?d = "\<lparr> power_sides = 3, power_source_sides = 2, power_num_dice = 2 \<rparr>"
  let ?s = "(DiePerfect_init 2 2)\<lparr> num_rolls := 6, cycle_pos := 6 \<rparr>"
  let ?s1 = "(DiePerfect_init 2 2)\<lparr> num_rolls := 8, cycle_pos := 8 \<rparr>"
  let ?s2 = "(DiePerfect_init 2 2)\<lparr> num_rolls := 10, cycle_pos := 10 \<rparr>"
  have ne: "rolls ?s \<noteq> []" "rolls ?s1 \<noteq> []"
    by (simp_all add: rolls_2d2)
  have c0: "call DiePerfect_roll 2 ?s = (Inr [2, 2], ?s1)"
    by (simp add: call_DiePerfect[OF ne(1)] rolls_2d2 upt_rec)
  have c1: "call DiePerfect_roll 2 ?s1 = (Inr [1, 1], ?s2)"
    by (simp add: call_DiePerfect[OF ne(2)] rolls_2d2 upt_rec)
  have rej: "\<forall>i<1. \<exists>ds. fst (call DiePerfect_roll (power_num_dice ?d)
                 (skip_batches DiePerfect_roll (power_num_dice ?d) i ?s)) = Inr ds
               \<and> lsd_composite (power_source_sides ?d) ds > power_sides ?d"
    by (simp add: c0 lsd_composite_pair)
  have acc: "call DiePerfect_roll (power_num_dice ?d)
               (skip_batches DiePerfect_roll (power_num_dice ?d) 1 ?s) = (Inr [1, 1], ?s2)"
    by (simp add: c0 c1)
  have le: "lsd_composite (power_source_sides ?d) [1, 1] \<le> power_sides ?d"
    by (simp add: lsd_composite_pair)
  from DiePower_roll_first_accepted[OF rej acc le] show ?thesis
    by (simp add: lsd_composite_pair)
qed

text \<open>
  C2. A roll of a constructed \<^verbatim>\<open>DieCombo\<close> draws batches of \<open>num_dice\<close> values, forms
  the most-significant-digit-first composite (the \<open>i\<close>-th draw contributes
  \<open>source_sides ^ (num_dice - 1 - i) * (d\<^sub>i - 1)\<close>), divides it by the divider
  \<open>source_sides ^ num_dice div sides\<close> and adds one. When the first \<open>j\<close> batches all give
  a value above \<open>sides\<close> and the next batch gives one that is at most \<open>sides\<close>, the roll
  returns the value of that batch.
\<close>

theorem DieCombo_roll_first_accepted:
  assumes "DieCombo_init sides S = Some (Inr d)"
    and "\<forall>i<j. \<exists>ds. fst (call src (combo_num_dice d)
                               (skip_batches src (combo_num_dice d) i s)) = Inr ds
            \<and> msd_composite S ds div (S ^ combo_num_dice d div sides) + 1 > sides"
    and "call src (combo_num_dice d) (skip_batches src (combo_num_dice d) j s) = (Inr ds, s')"
    and "msd_composite S ds div (S ^ combo_num_dice d div sides) + 1 \<le> sides"
  shows "DieCombo_roll src d s
           = Some (Inr (msd_composite S ds div (S ^ combo_num_dice d div sides) + 1), s')
         \<and> length ds = combo_num_dice d
         \<and> divider d = S ^ combo_num_dice d div sides"
proof -
  note f = DieCombo_init_Some[OF assms(1)]
  from DieCombo_init_divider[OF assms(1)] f(1) have nz: "divider d \<noteq> 0"
    by (cases "0 < sides") auto
  have "DieCombo_roll src d s
          = DieCombo_roll src d (skip_batches src (combo_num_dice d) j s)"
    using nz assms(2) by (intro DieCombo_roll_skip) (simp_all add: f)
  also have "\<dots> = Some (Inr (msd_composite S ds div (S ^ combo_num_dice d div sides) + 1), s')"
    using DieCombo_roll_accept[OF assms(3) nz] assms(4) by (simp add: f)
  finally show ?thesis
    using call_length[OF assms(3)] f(6) by simp
qed

theorem DieCombo_roll_first_accepted_witness:
  "DieCombo_roll DiePerfect_roll
     \<lparr> combo_sides = 16, combo_source_sides = 6, combo_num_dice = 2, divider = 2 \<rparr>
     ((DiePerfect_init 6 2)\<lparr> num_rolls := 68, cycle_pos := 68 \<rparr>)
   = Some (Inr 1, (DiePerfect_init 6 2)\<lparr> num_rolls := 74, cycle_pos := 74 \<rparr>)"
proof -
  let ?d = "\<lparr> combo_sides = 16, combo_source_sides = 6, combo_num_dice = 2, divider = 2 \<rparr>"
  let ?st = "\<lambda>k. (DiePerfect_init 6 2)\<lparr> num_rolls := k, cycle_pos := k \<rparr>"
  have ne: "rolls (?st k) \<noteq> []" for k
    by (simp add: rolls_2d6)
  have sk: "skip_batches DiePerfect_roll 2 i (?st 68) = ?st (68 + i * 2)" for i
    by (simp add: skip_batches_DiePerfect[OF ne])
  have c0: "call DiePerfect_roll 2 (?st 68) = (Inr [6, 5], ?st 70)"
    by (simp add: call_DiePerfect[OF ne] rolls_2d6 upt_rec)
  have c1: "call DiePerfect_roll 2 (?st 70) = (Inr [6, 6], ?st 72)"
    by (simp add: call_DiePerfect[OF ne] rolls_2d6 upt_rec)
  have c2: "call DiePerfect_roll 2 (?st 72) = (Inr [1, 1], ?st 74)"
    by (simp add: call_DiePerfect[OF ne] rolls_2d6 upt_rec)
  have rej: "\<forall>i<2. \<exists>ds. fst (call DiePerfect_roll (combo_num_dice ?d)
                 (skip_batches DiePerfect_roll (combo_num_dice ?d) i (?st 68))) = Inr ds
               \<and> msd_composite 6 ds div (6 ^ combo_num_dice ?d div 16) + 1 > 16"
  proof (intro allI impI)
    fix i :: nat
    assume "i < 2"
    then consider "i = 0" | "i = 1" by linarith
    then show "\<exists>ds. fst (call DiePerfect_roll (combo_num_dice ?d)
                 (skip_batches DiePerfect_roll (combo_num_dice ?d) i (?st 68))) = Inr ds
               \<and> msd_composite 6 ds div (6 ^ combo_num_dice ?d div 16) + 1 > 16"
    proof cases
      case 1
      then show ?thesis by (simp add: sk c0 msd_composite_pair)
    next
      case 2
      then show ?thesis by (simp add: c0 c1 msd_composite_pair)
    qed
  qed
  have acc: "call DiePerfect_roll (combo_num_dice ?d)
               (skip_batches DiePerfect_roll (combo_num_dice ?d) 2 (?st 68)) = (Inr [1, 1], ?st 74)"
    by (simp add: sk c2)
  have le: "msd_composite 6 [1, 1] div (6 ^ combo_num_dice ?d div 16) + 1 \<le> 16"
    by (simp add: msd_composite_pair)
  from DieCombo_roll_first_accepted[OF DieCombo_init_16_6 rej acc le] show ?thesis
    by (simp add: msd_composite_pair)
qed

text \<open>
  C8. When every value the source returns lies in \<open>[1, source_sides]\<close>, every value
  that a roll of a constructed \<^verbatim>\<open>DiePower\<close> or \<^verbatim>\<open>DieCombo\<close> returns lies in \<open>[1, sides]\<close>.
\<close>

theorem accepted_roll_in_range:
  assumes "\<forall>s r s'. src s = (Inr r, s') \<longrightarrow> 1 \<le> r \<and> r \<le> S"
  shows "(DiePower_init sides S = Some (Inr dp) \<and> DiePower_roll src dp s = Some (Inr v, s')
            \<longrightarrow> 1 \<le> v \<and> v \<le> sides)
       \<and> (DieCombo_init sides S = Some (Inr dc) \<and> DieCombo_roll src dc s = Some (Inr w, s'')
            \<longrightarrow> 1 \<le> w \<and> w \<le> sides)"
proof (intro conjI impI)
  assume a: "DiePower_init sides S = Some (Inr dp) \<and> DiePower_roll src dp s = Some (Inr v, s')"
  then have dp: "power_sides dp = sides" "power_source_sides dp = S"
    by (auto simp: DiePower_init_def split: option.splits)
  from a DiePower_roll_Some[of src dp s "(Inr v, s')"]
  obtain ds s0 where c: "call src (power_num_dice dp) s0 = (Inr ds, s')"
    and v: "v = DiePower_value dp ds" "v \<le> power_sides dp"
    by auto
  from call_range[OF assms c] have "1 \<le> lsd_composite S ds"
    by (rule lsd_composite_ge_1)
  with v dp show "1 \<le> v" "v \<le> sides"
    by (simp_all add: DiePower_value_lsd)
next
  assume a: "DieCombo_init sides S = Some (Inr dc) \<and> DieCombo_roll src dc s = Some (Inr w, s'')"
  then have i: "DieCombo_init sides S = Some (Inr dc)" by simp
  note f = DieCombo_init_Some[OF i]
  from a DieCombo_roll_Some[of src dc s "(Inr w, s'')"]
  obtain ds s0 where c: "call src (combo_num_dice dc) s0 = (Inr ds, s'')"
    and w: "w = DieCombo_raw dc ds div divider dc + 1" "w \<le> combo_sides dc"
    by auto
  have raw: "DieCombo_raw dc ds = msd_composite S ds"
    using call_length[OF c] by (simp add: DieCombo_raw_msd f)
  from call_range[OF assms c] have nn: "0 \<le> msd_composite S ds"
    by (rule msd_composite_ge_0)
  from w f show "w \<le> sides" by simp
  show "1 \<le> w"
  proof (cases "0 < sides")
    case True
    with DieCombo_init_divider[OF i] have "1 \<le> divider dc" by simp
    with nn have "0 \<le> msd_composite S ds div divider dc"
      by (simp add: pos_imp_zdiv_nonneg_iff)
    with w raw show ?thesis by simp
  next
    case False
    with f(1) have neg: "sides < 0" by simp
    with DieCombo_init_divider[OF i] have z: "combo_num_dice dc = 0" by simp
    with call_length[OF c] have "ds = []" by simp
    then have "msd_composite S ds = 0" by (simp add: msd_composite_def)
    with w raw have "w = 1" by simp
    with \<open>w \<le> sides\<close> neg show ?thesis by simp
  qed
qed

theorem accepted_roll_in_range_witness:
  "DiePower_init 3 2 = Some (Inr \<lparr> power_sides = 3, power_source_sides = 2, power_num_dice = 2 \<rparr>)
   \<and> DiePower_roll (\<lambda>k::nat. (Inr (int (k mod 2) + 1), k + 1))
        \<lparr> power_sides = 3, power_source_sides = 2, power_num_dice = 2 \<rparr> 0 = Some (Inr 3, 2)
   \<and> DieCombo_init 3 2 = Some (Inr \<lparr> combo_sides = 3, combo_source_sides = 2,
                                      combo_num_dice = 2, divider = 1 \<rparr>)
   \<and> DieCombo_roll (\<lambda>k::nat. (Inr (int (k mod 2) + 1), k + 1))
        \<lparr> combo_sides = 3, combo_source_sides = 2, combo_num_dice = 2, divider = 1 \<rparr> 0
        = Some (Inr 2, 2)
   \<and> (1::int) \<le> 3 \<and> (3::int) \<le> 3 \<and> (1::int) \<le> 2 \<and> (2::int) \<le> 3"
proof -
  let ?src = "\<lambda>k::nat. (Inr (int (k mod 2) + 1) :: error + int, k + 1)"
  let ?dp = "\<lparr> power_sides = 3, power_source_sides = 2, power_num_dice = 2 \<rparr>"
  let ?dc = "\<lparr> combo_sides = 3, combo_source_sides = 2, combo_num_dice = 2, divider = 1 \<rparr>"
  have h: "\<forall>s r s'. ?src s = (Inr r, s') \<longrightarrow> 1 \<le> r \<and> r \<le> 2"
    by auto
  have c: "call ?src 2 0 = (Inr [1, 2], 2)"
    by (simp add: numeral_2_eq_2)
  have ip: "DiePower_init 3 2 = Some (Inr ?dp)"
    by (simp add: DiePower_init_def num_dice_loop.simps)
  have ic: "DieCombo_init 3 2 = Some (Inr ?dc)"
    by (simp add: DieCombo_init_def num_dice_loop.simps)
  have rp: "DiePower_roll ?src ?dp 0 = Some (Inr 3, 2)"
    using DiePower_roll_accept[of ?src ?dp 0 "[1, 2]" 2] c by (simp add: lsd_composite_pair)
  have rc: "DieCombo_roll ?src ?dc 0 = Some (Inr 2, 2)"
    using DieCombo_roll_accept[of ?src ?dc 0 "[1, 2]" 2] c by (simp add: msd_composite_pair)
  from accepted_roll_in_range[OF h, of 3 ?dp 0 3 2 ?dc 2 2] ip ic rp rc
  show ?thesis by simp
qed

section \<open>Construction\<close>

lemma DiePower_init_16_6:
  "DiePower_init 16 6 = Some (Inr \<lparr> power_sides = 16, power_source_sides = 6,
                                     power_num_dice = 2 \<rparr>)"
  by (simp add: DiePower_init_def num_dice_loop.simps)

text \<open>
  C6. For \<open>source_sides \<ge> 2\<close> the constructors of \<^verbatim>\<open>DiePower\<close> and \<^verbatim>\<open>DieCombo\<close> return, and
  the \<open>num_dice\<close> they compute is the smallest natural number \<open>n\<close> with
  \<open>source_sides ^ n \<ge> sides\<close>; \<^verbatim>\<open>DieCombo\<close> (which needs \<open>sides \<noteq> 0\<close> for its division)
  stores the divider \<open>source_sides ^ n div sides\<close>. For \<open>sides = 16\<close> and
  \<open>source_sides = 6\<close> this gives \<open>num_dice = 2\<close> and the divider \<open>36 div 16 = 2\<close>.
\<close>

theorem num_dice_smallest:
  assumes "2 \<le> S"
  shows "(\<exists>n. sides \<le> S ^ n \<and> (\<forall>k<n. S ^ k < sides) \<and> n = (LEAST k. sides \<le> S ^ k)
            \<and> DiePower_init sides S
                = Some (Inr \<lparr> power_sides = sides, power_source_sides = S, power_num_dice = n \<rparr>)
            \<and> DieCombo_init sides S
                = (if sides = 0 then Some (Inl ZeroDivisionError)
                   else Some (Inr \<lparr> combo_sides = sides, combo_source_sides = S,
                                     combo_num_dice = n, divider = S ^ n div sides \<rparr>)))
       \<and> DiePower_init 16 6
           = Some (Inr \<lparr> power_sides = 16, power_source_sides = 6, power_num_dice = 2 \<rparr>)
       \<and> DieCombo_init 16 6
           = Some (Inr \<lparr> combo_sides = 16, combo_source_sides = 6, combo_num_dice = 2,
                          divider = 2 \<rparr>)"
proof -
  from pow_reaches[OF assms] obtain m where "sides \<le> S ^ m" by blast
  then have l: "num_dice_loop S sides 0 = Some (LEAST k. sides \<le> S ^ k)"
    by (rule num_dice_loop_Least)
  define n where "n = (LEAST k. sides \<le> S ^ k)"
  from num_dice_loop_Some[OF l] have "sides \<le> S ^ n" "\<forall>k<n. S ^ k < sides"
    by (simp_all add: n_def)
  moreover from l have "DiePower_init sides S
      = Some (Inr \<lparr> power_sides = sides, power_source_sides = S, power_num_dice = n \<rparr>)"
    by (simp add: DiePower_init_def n_def)
  moreover from l have "DieCombo_init sides S
      = (if sides = 0 then Some (Inl ZeroDivisionError)
         else Some (Inr \<lparr> combo_sides = sides, combo_source_sides = S,
                           combo_num_dice = n, divider = S ^ n div sides \<rparr>))"
    by (simp add: DieCombo_init_def n_def)
  ultimately show ?thesis
    using DiePower_init_16_6 DieCombo_init_16_6 n_def by blast
qed

theorem num_dice_smallest_witness:
  "2 \<le> (6::int) \<and> (LEAST k. (16::int) \<le> 6 ^ k) = 2"
proof -
  from num_dice_smallest[of 6 16] obtain n where n: "n = (LEAST k. (16::int) \<le> 6 ^ k)"
    and "DiePower_init 16 6
           = Some (Inr \<lparr> power_sides = 16, power_source_sides = 6, power_num_dice = n \<rparr>)"
    by auto
  with DiePower_init_16_6 have "n = 2" by simp
  with n show ?thesis by simp
qed

text \<open>
  C10. For a target of one side, whatever the source, both constructors compute
  \<open>num_dice = 0\<close>, and a roll returns 1 at its first attempt and leaves the source in
  the state it was in: nothing is drawn from it.
\<close>

theorem one_sided_target:
  "DiePower_init 1 S
     = Some (Inr \<lparr> power_sides = 1, power_source_sides = S, power_num_dice = 0 \<rparr>)
   \<and> DiePower_roll src \<lparr> power_sides = 1, power_source_sides = S, power_num_dice = 0 \<rparr> s
       = Some (Inr 1, s)
   \<and> DieCombo_init 1 S
       = Some (Inr \<lparr> combo_sides = 1, combo_source_sides = S, combo_num_dice = 0,
                      divider = 1 \<rparr>)
   \<and> DieCombo_roll src \<lparr> combo_sides = 1, combo_source_sides = S, combo_num_dice = 0,
                          divider = 1 \<rparr> s
       = Some (Inr 1, s)"
proof -
  have "DiePower_roll src \<lparr> power_sides = 1, power_source_sides = S, power_num_dice = 0 \<rparr> s
       = Some (Inr 1, s)"
    by (subst DiePower_roll.simps) (simp add: DiePower_value_def enumerate_eq_zip)
  moreover have "DieCombo_roll src \<lparr> combo_sides = 1, combo_source_sides = S,
      combo_num_dice = 0, divider = 1 \<rparr> s = Some (Inr 1, s)"
    by (subst DieCombo_roll.simps) (simp add: DieCombo_raw_def enumerate_eq_zip)
  ultimately show ?thesis
    by (simp add: DiePower_init_def DieCombo_init_def num_dice_loop_one)
qed

section \<open>The divisor converter\<close>

text \<open>
  C7. For \<open>sides \<noteq> 0\<close>, \<^verbatim>\<open>DieDivider.__init__\<close> raises if and only if
  \<open>source_sides mod sides \<noteq> 0\<close>; what it raises is the exception whose message holds the
  decimal renderings of both side counts, the source's first and the target's second,
  and otherwise the die is returned. For \<open>sides = 4\<close> and \<open>source_sides = 6\<close> it raises.
  (For \<open>sides = 0\<close> the remainder itself raises ZeroDivisionError.)
\<close>

theorem DieDivider_init_error:
  assumes "sides \<noteq> 0"
  shows "((\<exists>e. DieDivider_init sides S = Inl e) \<longleftrightarrow> S mod sides \<noteq> 0)
       \<and> (S mod sides \<noteq> 0 \<longrightarrow>
            DieDivider_init sides S
              = Inl (Exception (''Cannot divide a die from '' @ str_int S
                                @ '' sides, to '' @ str_int sides @ '' sides.'')))
       \<and> (S mod sides = 0 \<longrightarrow>
            DieDivider_init sides S
              = Inr \<lparr> divider_sides = sides, divider_source_sides = S \<rparr>)
       \<and> DieDivider_init 4 6
            = Inl (Exception ''Cannot divide a die from 6 sides, to 4 sides.'')"
proof -
  have "DieDivider_init 4 6 = Inl (Exception ''Cannot divide a die from 6 sides, to 4 sides.'')"
    by (simp add: DieDivider_init_def str_int_def str_nat.simps)
  with assms show ?thesis
    by (simp add: DieDivider_init_def)
qed

theorem DieDivider_init_error_witness:
  "(4::int) \<noteq> 0 \<and> (6::int) mod 4 \<noteq> 0
   \<and> DieDivider_init 4 6 = Inl (Exception ''Cannot divide a die from 6 sides, to 4 sides.'')
   \<and> (12::int) mod 4 = 0
   \<and> DieDivider_init 4 12 = Inr \<lparr> divider_sides = 4, divider_source_sides = 12 \<rparr>"
  using DieDivider_init_error[of 4 6] DieDivider_init_error[of 4 12]
  by simp

lemma bit_length_bounds:
  "0 < n \<Longrightarrow> 2 ^ (bit_length n - 1) \<le> n \<and> n < 2 ^ bit_length n"
proof (induction n rule: bit_length.induct)
  case (1 n)
  show ?case
  proof (cases "n div 2 = 0")
    case True
    with 1(2) have "n = 1" by (auto simp: div_eq_0_iff)
    then show ?thesis by (simp add: bit_length.simps[of "Suc 0"] bit_length.simps[of 0])
  next
    case False
    then have pos: "0 < n div 2" by simp
    from 1(1)[OF _ pos] 1(2) have IH: "2 ^ (bit_length (n div 2) - 1) \<le> n div 2"
      "n div 2 < 2 ^ bit_length (n div 2)" by simp_all
    have bl: "bit_length n = Suc (bit_length (n div 2))"
      using 1(2) by (subst bit_length.simps) simp
    have "0 < bit_length (n div 2)"
      using pos by (subst bit_length.simps) simp
    then have "(2::nat) ^ bit_length (n div 2) = 2 * 2 ^ (bit_length (n div 2) - 1)"
      by (cases "bit_length (n div 2)") simp_all
    with IH have "2 ^ bit_length (n div 2) \<le> n" by linarith
    moreover from IH have "n < 2 * 2 ^ bit_length (n div 2)" by linarith
    ultimately show ?thesis by (simp add: bl)
  qed
qed

lemma bit_length_rat:
  assumes "0 < a"
  shows "(2::rat) powi (int (bit_length (nat a)) - 1) \<le> of_int a"
    and "of_int a < (2::rat) powi int (bit_length (nat a))"
proof -
  let ?l = "bit_length (nat a)"
  from assms have n: "0 < nat a" by simp
  note b = bit_length_bounds[OF n]
  have lpos: "0 < ?l" using n by (subst bit_length.simps) simp
  then have "int ?l - 1 = int (?l - 1)" by simp
  then have "(2::rat) powi (int ?l - 1) = 2 ^ (?l - 1)" by (simp only: power_int_of_nat)
  also have "\<dots> = of_nat (2 ^ (?l - 1))" by simp
  also have "\<dots> \<le> of_nat (nat a)" using b by (simp only: of_nat_le_iff)
  also have "\<dots> = of_int a" using assms by simp
  finally show "(2::rat) powi (int ?l - 1) \<le> of_int a" .
  have "of_int a = (of_nat (nat a) :: rat)" using assms by simp
  also have "\<dots> < of_nat (2 ^ ?l)" using b by (simp only: of_nat_less_iff)
  also have "\<dots> = 2 powi int ?l" by simp
  finally show "of_int a < (2::rat) powi int ?l" .
qed

lemma scaled_value:
  assumes "0 < b" and "scaled a b p = (n, m)"
  shows "0 < m" and "rat_of_int n / rat_of_int m = (rat_of_int a / rat_of_int b) / 2 powi p"
proof -
  show "0 < m" using assms by (auto simp: scaled_def split: if_splits)
  show "rat_of_int n / rat_of_int m = (rat_of_int a / rat_of_int b) / 2 powi p"
  proof (cases "0 \<le> p")
    case True
    then have "(2::rat) powi p = 2 ^ nat p" by (simp add: power_int_def)
    with True assms show ?thesis by (auto simp: scaled_def)
  next
    case False
    then have "(2::rat) powi (- p) = 2 ^ nat (- p)" by (simp add: power_int_def)
    moreover have "(2::rat) powi p = inverse (2 powi (- p))"
      using power_int_minus[of "2::rat" "- p"] by simp
    ultimately have "(2::rat) powi p = inverse (2 ^ nat (- p))" by simp
    with False assms show ?thesis by (auto simp: scaled_def field_simps)
  qed
qed

lemma binary_exponent_lower:
  assumes "0 < a" and "0 < b"
  shows "(2::rat) powi binary_exponent a b \<le> rat_of_int a / rat_of_int b"
proof -
  define d where "d = int (bit_length (nat a)) - int (bit_length (nat b))"
  obtain n m where s: "scaled a b d = (n, m)" by (cases "scaled a b d")
  note v = scaled_value[OF assms(2) s]
  have bpos: "(0::rat) < of_int b" using assms by simp
  show ?thesis
  proof (cases "m \<le> n")
    case True
    then have e: "binary_exponent a b = d"
      using s by (simp add: binary_exponent_def d_def Let_def)
    from True v(1) have "1 \<le> rat_of_int n / rat_of_int m" by simp
    with v(2) have "1 \<le> (rat_of_int a / rat_of_int b) / 2 powi d" by simp
    moreover have "(0::rat) < 2 powi d" by simp
    ultimately have "1 * 2 powi d \<le> rat_of_int a / rat_of_int b"
      by (simp only: pos_le_divide_eq)
    then show ?thesis by (simp add: e)
  next
    case False
    then have e: "binary_exponent a b = d - 1"
      using s by (simp add: binary_exponent_def d_def Let_def)
    have "(2::rat) powi (d - 1)
          = 2 powi (int (bit_length (nat a)) - 1) / 2 powi int (bit_length (nat b))"
      by (simp add: d_def power_int_diff)
    also have "\<dots> \<le> of_int a / 2 powi int (bit_length (nat b))"
      using bit_length_rat(1)[OF assms(1)] by (intro divide_right_mono) simp_all
    also have "\<dots> \<le> of_int a / of_int b"
      using bit_length_rat(2)[OF assms(2)] assms bpos
      by (intro divide_left_mono) (simp_all add: less_imp_le)
    finally show ?thesis by (simp add: e)
  qed
qed

lemma binary_exponent_ge:
  "int (bit_length (nat a)) - int (bit_length (nat b)) - 1 \<le> binary_exponent a b"
  by (simp add: binary_exponent_def Let_def split: prod.splits)

lemma round_half_even_cases:
  "(round_half_even n d = n div d \<and> 2 * (n mod d) \<le> d)
   \<or> (round_half_even n d = n div d + 1 \<and> d \<le> 2 * (n mod d))"
  by (auto simp: round_half_even_def Let_def)

lemma round_half_even_upper:
  assumes "0 < d" and "n \<le> M * d"
  shows "round_half_even n d \<le> M"
proof -
  define q r where "q = n div d" and "r = n mod d"
  have r: "0 \<le> r" using assms(1) by (simp add: r_def)
  have n: "n = q * d + r" by (simp add: q_def r_def)
  from round_half_even_cases[of n d]
  consider (down) "round_half_even n d = q" "2 * r \<le> d"
    | (up) "round_half_even n d = q + 1" "d \<le> 2 * r"
    unfolding q_def r_def by blast
  then show ?thesis
  proof cases
    case down
    have "q * d \<le> M * d" using n r assms(2) by linarith
    then have "q \<le> M" using assms(1) by (rule mult_right_le_imp_le)
    with down show ?thesis by simp
  next
    case up
    with assms(1) have "0 < r" by linarith
    then have "q * d < M * d" using n assms(2) by linarith
    then have "q < M" by (rule mult_right_less_imp_less) (use assms(1) in simp)
    with up show ?thesis by simp
  qed
qed

lemma round_half_even_lower:
  assumes "0 < d" and "(2 * K + 1) * d < 2 * n"
  shows "K + 1 \<le> round_half_even n d"
proof -
  define q r where "q = n div d" and "r = n mod d"
  have r: "r < d" using assms(1) by (simp add: r_def)
  have n: "n = q * d + r" by (simp add: q_def r_def)
  from round_half_even_cases[of n d]
  consider (down) "round_half_even n d = q" "2 * r \<le> d"
    | (up) "round_half_even n d = q + 1" "d \<le> 2 * r"
    unfolding q_def r_def by blast
  then show ?thesis
  proof cases
    case down
    have "(2 * q + 1) * d = 2 * (q * d) + d" by (simp add: algebra_simps)
    with n down(2) assms(2) have "(2 * K + 1) * d < (2 * q + 1) * d" by linarith
    then have "2 * K + 1 < 2 * q + 1"
      by (rule mult_right_less_imp_less) (use assms(1) in simp)
    with down show ?thesis by simp
  next
    case up
    have "(2 * q + 2) * d = 2 * (q * d) + 2 * d" by (simp add: algebra_simps)
    with n r assms(2) have "(2 * K + 1) * d < (2 * q + 2) * d" by linarith
    then have "2 * K + 1 < 2 * q + 2"
      by (rule mult_right_less_imp_less) (use assms(1) in simp)
    with up show ?thesis by simp
  qed
qed

lemma binary_exponent_range:
  assumes "1 \<le> a" and "a \<le> 2 ^ 53" and "1 \<le> b" and "b \<le> 2 ^ 53"
  shows "- 54 \<le> binary_exponent a b" and "binary_exponent a b \<le> 53"
proof -
  let ?e = "binary_exponent a b"
  have apos: "0 < a" and bpos: "0 < b" using assms by simp_all
  have la: "0 < bit_length (nat a)"
    using apos by (subst bit_length.simps) simp
  have lb: "bit_length (nat b) \<le> 54"
  proof (rule ccontr)
    assume "\<not> bit_length (nat b) \<le> 54"
    then have "54 \<le> bit_length (nat b) - 1" by simp
    then have "(2::nat) ^ 54 \<le> 2 ^ (bit_length (nat b) - 1)"
      by (intro power_increasing) simp_all
    also have "\<dots> \<le> nat b" using bit_length_bounds[of "nat b"] bpos by simp
    finally have "2 ^ 54 \<le> b" by (simp add: le_nat_iff)
    with assms(4) show False by simp
  qed
  from binary_exponent_ge[of a b] la lb show "- 54 \<le> ?e" by linarith
  have Q: "rat_of_int a / rat_of_int b \<le> 2 ^ 53"
  proof -
    have "rat_of_int a / rat_of_int b \<le> rat_of_int a / 1"
      using assms by (intro divide_left_mono) simp_all
    also have "\<dots> \<le> of_int (2 ^ 53)" using assms(2) by (simp only: div_by_1 of_int_le_iff)
    finally show ?thesis by simp
  qed
  show "?e \<le> 53"
  proof (rule ccontr)
    assume "\<not> ?e \<le> 53"
    then have "53 < ?e" by simp
    then have "(2::rat) powi 53 < 2 powi ?e"
      by (intro power_int_strict_increasing) simp_all
    also have "\<dots> \<le> rat_of_int a / rat_of_int b"
      using apos bpos by (rule binary_exponent_lower)
    finally show False using Q by simp
  qed
qed

lemma ceiling_rat_div: "\<lceil>rat_of_int a / rat_of_int b\<rceil> = - (- a div b)"
proof -
  have "- (rat_of_int a / rat_of_int b) = rat_of_int (- a) / rat_of_int b" by simp
  then show ?thesis by (simp only: ceiling_def floor_divide_of_int_eq)
qed

lemma ceiling_quotient_bounds:
  assumes "0 < b"
  shows "(\<lceil>rat_of_int a / rat_of_int b\<rceil> - 1) * b < a"
    and "a \<le> \<lceil>rat_of_int a / rat_of_int b\<rceil> * b"
proof -
  let ?c = "\<lceil>rat_of_int a / rat_of_int b\<rceil>"
  have bp: "(0::rat) < of_int b" using assms by simp
  have "rat_of_int a / rat_of_int b \<le> of_int ?c" by (rule le_of_int_ceiling)
  then have "rat_of_int a \<le> of_int ?c * of_int b"
    using bp by (simp only: pos_divide_le_eq)
  then have "rat_of_int a \<le> of_int (?c * b)" by simp
  then show "a \<le> ?c * b" by (simp only: of_int_le_iff)
  have "of_int ?c - 1 < rat_of_int a / rat_of_int b"
    using ceiling_correct[of "rat_of_int a / rat_of_int b"] by simp
  then have "(of_int ?c - 1) * rat_of_int b < rat_of_int a"
    using bp by (simp only: pos_less_divide_eq)
  then have "rat_of_int ((?c - 1) * b) < rat_of_int a" by simp
  then show "(?c - 1) * b < a" by (simp only: of_int_less_iff)
qed

lemma round_to_double_ceiling_small_exponent:
  assumes "0 < a" and "a \<le> 2 ^ 53" and "0 < b"
    and "binary_exponent a b = e" and "- 54 \<le> e" and "e \<le> 51"
  shows "\<exists>x. round_to_double a b = Inr x \<and> \<lceil>x\<rceil> = \<lceil>rat_of_int a / rat_of_int b\<rceil>"
proof -
  define t :: int where "t = 2 ^ nat (52 - e)"
  define c where "c = \<lceil>rat_of_int a / rat_of_int b\<rceil>"
  define k where "k = c - 1"
  define m where "m = round_half_even (a * t) b"
  have tpos: "0 < t" by (simp add: t_def)
  have t2: "2 \<le> t"
  proof -
    have "(2::int) ^ 1 \<le> 2 ^ nat (52 - e)"
      using assms(6) by (intro power_increasing) simp_all
    then show ?thesis by (simp add: t_def)
  qed
  have rd: "round_to_double a b = Inr (rat_of_int m / rat_of_int t)"
    using assms(4,5,6)
    by (simp add: round_to_double_def Let_def scaled_def max_def m_def t_def algebra_simps)
  note cb = ceiling_quotient_bounds[OF assms(3), of a, folded c_def]
  have kb: "k * b < a" using cb(1) by (simp add: k_def)
  have upper: "m \<le> c * t"
  proof -
    have "a * t \<le> (c * b) * t" using cb(2) tpos by (intro mult_right_mono) simp_all
    then have "a * t \<le> (c * t) * b" by (simp add: mult.commute mult.left_commute)
    with assms(3) show ?thesis unfolding m_def by (rule round_half_even_upper)
  qed
  have E: "(0::rat) < 2 powi e" by simp
  have f1: "rat_of_int b * 2 powi e \<le> rat_of_int a"
  proof -
    have "(2::rat) powi e \<le> rat_of_int a / rat_of_int b"
      using binary_exponent_lower[OF assms(1,3)] assms(4) by simp
    then show ?thesis using assms(3) by (simp add: pos_le_divide_eq mult.commute)
  qed
  have f2: "rat_of_int (2 * t) * 2 powi e = 2 ^ 53"
  proof -
    have "rat_of_int t = 2 powi (52 - e)"
      using assms(6) by (simp add: t_def power_int_def)
    then have "rat_of_int (2 * t) * 2 powi e = 2 * (2 powi (52 - e) * 2 powi e)" by simp
    also have "2 powi (52 - e) * 2 powi e = (2::rat) powi ((52 - e) + e)"
      by (rule power_int_add[symmetric]) simp
    also have "(52 - e) + e = 52" by simp
    also have "2 * (2::rat) powi 52 = 2 ^ 53" by simp
    finally show ?thesis .
  qed
  have ble: "b \<le> 2 * t"
  proof -
    have "rat_of_int a \<le> rat_of_int (2 ^ 53)"
      using assms(2) by (simp only: of_int_le_iff)
    then have "rat_of_int a \<le> 2 ^ 53" by simp
    with f1 have "rat_of_int b * 2 powi e \<le> 2 ^ 53" by (rule order_trans)
    then have "rat_of_int b * 2 powi e \<le> rat_of_int (2 * t) * 2 powi e"
      by (simp only: f2)
    then have "rat_of_int b \<le> rat_of_int (2 * t)"
      using E by (rule mult_right_le_imp_le)
    then show ?thesis by (simp only: of_int_le_iff)
  qed
  have bne: "b \<noteq> 2 * t" if "a - k * b = 1"
  proof
    assume b: "b = 2 * t"
    with f1 f2 have "(2::rat) ^ 53 \<le> rat_of_int a" by simp
    then have "rat_of_int (2 ^ 53) \<le> rat_of_int a" by simp
    then have "2 ^ 53 \<le> a" by (simp only: of_int_le_iff)
    with assms(2) have "a = 2 ^ 53" by simp
    then have "even a" by simp
    moreover from that b have "a = 2 * (k * t) + 1" by (simp add: algebra_simps)
    ultimately show False by simp
  qed
  have key: "b < 2 * t * (a - k * b)"
  proof (cases "a - k * b = 1")
    case True
    with bne ble show ?thesis by simp
  next
    case False
    with kb have "2 \<le> a - k * b" by simp
    then have "2 * t * 2 \<le> 2 * t * (a - k * b)"
      using tpos by (intro mult_left_mono) simp_all
    with ble tpos show ?thesis by linarith
  qed
  have lower: "k * t + 1 \<le> m"
  proof -
    have "2 * t * (a - k * b) = 2 * (a * t) - 2 * (k * t) * b"
      by (simp add: algebra_simps)
    with key have "(2 * (k * t) + 1) * b < 2 * (a * t)"
      by (simp add: algebra_simps)
    with assms(3) show ?thesis unfolding m_def by (rule round_half_even_lower)
  qed
  have tp: "(0::rat) < of_int t" using tpos by simp
  have "rat_of_int (k * t) < rat_of_int m" using lower by (simp only: of_int_less_iff)
  then have "rat_of_int k * rat_of_int t < rat_of_int m" by simp
  then have "rat_of_int k < rat_of_int m / rat_of_int t"
    using tp by (simp only: pos_less_divide_eq)
  then have x1: "of_int c - 1 < rat_of_int m / rat_of_int t" by (simp add: k_def)
  have "rat_of_int m \<le> rat_of_int (c * t)" using upper by (simp only: of_int_le_iff)
  then have "rat_of_int m \<le> rat_of_int c * rat_of_int t" by simp
  then have x2: "rat_of_int m / rat_of_int t \<le> of_int c"
    using tp by (simp only: pos_divide_le_eq)
  from x1 x2 have "\<lceil>rat_of_int m / rat_of_int t\<rceil> = c" by (rule ceiling_unique)
  with rd show ?thesis by (simp add: c_def)
qed

lemma round_to_double_2_53_1: "round_to_double (2 ^ 53) 1 = Inr (2 ^ 53)"
  by (simp add: round_to_double_def binary_exponent_def scaled_def
      round_half_even_def bit_length.simps Let_def)

lemma round_to_double_2_53_2: "round_to_double (2 ^ 53) 2 = Inr (2 ^ 52)"
  by (simp add: round_to_double_def binary_exponent_def scaled_def
      round_half_even_def bit_length.simps Let_def)

lemma round_to_double_ceiling_exact:
  assumes "1 \<le> a" and "a \<le> 2 ^ 53" and "1 \<le> b" and "b \<le> 2 ^ 53"
  shows "\<exists>x. round_to_double a b = Inr x \<and> \<lceil>x\<rceil> = \<lceil>rat_of_int a / rat_of_int b\<rceil>"
proof -
  define e where "e = binary_exponent a b"
  have apos: "0 < a" and bpos: "0 < b" using assms by simp_all
  note rng = binary_exponent_range[OF assms, folded e_def]
  show ?thesis
  proof (cases "e \<le> 51")
    case True
    with apos assms(2) bpos e_def[symmetric] rng(1) show ?thesis
      by (intro round_to_double_ceiling_small_exponent[of a b e]) simp_all
  next
    case False
    then have e52: "52 \<le> e" by simp
    have "(2::rat) powi 52 \<le> 2 powi e"
      using e52 by (intro power_int_increasing) simp_all
    also have "\<dots> \<le> rat_of_int a / rat_of_int b"
      unfolding e_def using apos bpos by (rule binary_exponent_lower)
    finally have "(2::rat) ^ 52 * rat_of_int b \<le> rat_of_int a"
      using bpos by (simp add: pos_le_divide_eq)
    then have "rat_of_int (2 ^ 52 * b) \<le> rat_of_int a" by simp
    then have lo: "2 ^ 52 * b \<le> a" by (simp only: of_int_le_iff)
    with assms(2,3) have b12: "b = 1 \<or> b = 2" by simp arith
    show ?thesis
    proof (cases "a = 2 ^ 53")
      case True
      from b12 show ?thesis
      proof
        assume "b = 1"
        with True round_to_double_2_53_1 show ?thesis by simp
      next
        assume "b = 2"
        with True round_to_double_2_53_2 have "round_to_double a b = Inr (2 ^ 52)"
          by simp
        moreover have "\<lceil>rat_of_int a / rat_of_int b\<rceil> = 2 ^ 52"
          using True \<open>b = 2\<close> ceiling_rat_div[of "2 ^ 53" 2] by simp
        ultimately show ?thesis by simp
      qed
    next
      case False
      with assms(2) have alt: "a < 2 ^ 53" by simp
      with lo b12 have b1: "b = 1" by auto
      have "e \<noteq> 53"
      proof
        assume "e = 53"
        then have "(2::rat) powi 53 \<le> rat_of_int a / rat_of_int b"
          unfolding e_def[symmetric] using binary_exponent_lower[OF apos bpos]
          by (simp add: e_def)
        with b1 have "rat_of_int (2 ^ 53) \<le> rat_of_int a" by simp
        then have "2 ^ 53 \<le> a" by (simp only: of_int_le_iff)
        with alt show False by simp
      qed
      with e52 rng(2) have e: "binary_exponent a 1 = 52" by (simp add: e_def b1)
      have "round_to_double a 1 = Inr (rat_of_int a)"
        using alt by (simp add: round_to_double_def e Let_def scaled_def round_half_even_def)
      with b1 show ?thesis by simp
    qed
  qed
qed

lemma true_divide_ceiling_exact:
  assumes "1 \<le> a" and "a \<le> 2 ^ 53" and "1 \<le> b" and "b \<le> 2 ^ 53"
  shows "\<exists>x. true_divide a b = Inr x \<and> \<lceil>x\<rceil> = \<lceil>rat_of_int a / rat_of_int b\<rceil>"
proof -
  from round_to_double_ceiling_exact[OF assms] obtain x
    where "round_to_double a b = Inr x" "\<lceil>x\<rceil> = \<lceil>rat_of_int a / rat_of_int b\<rceil>" by blast
  with assms(1,3) show ?thesis by (simp add: true_divide_def)
qed

lemma bit_length_pow2: "bit_length (2 ^ n) = Suc n"
  by (induction n) (simp_all add: bit_length.simps)

lemma true_divide_tie_to_one: "true_divide (2 ^ 53 + 1) (2 ^ 53) = Inr 1"
  by (simp add: true_divide_def round_to_double_def binary_exponent_def scaled_def
      round_half_even_def bit_length.simps Let_def)

lemma true_divide_tie_to_even: "true_divide (2 ^ 53 + 1) 1 = Inr (2 ^ 53)"
  by (simp add: true_divide_def round_to_double_def binary_exponent_def scaled_def
      round_half_even_def bit_length.simps Let_def)

lemma true_divide_overflow: "true_divide (2 ^ 1024) 1 = Inl OverflowError"
proof -
  have "nat ((2::int) ^ 1024) = (2::nat) ^ 1024"
    by (simp only: nat_power_eq nat_numeral zero_le_numeral)
  then have "bit_length (nat ((2::int) ^ 1024)) = 1025"
    by (simp only: bit_length_pow2)
  then have b: "binary_exponent (2 ^ 1024) 1 = 1024"
    unfolding binary_exponent_def
    by (simp add: bit_length.simps[of "Suc 0"] bit_length.simps[of 0] scaled_def Let_def)
  have "round_to_double (2 ^ 1024) 1 = Inl OverflowError"
    unfolding round_to_double_def b
    by (simp add: scaled_def round_half_even_def Let_def)
  then show ?thesis
    by (simp add: true_divide_def)
qed

lemma rolls_one_die: "rolls (DiePerfect_init S 1) = [1..S]"
proof -
  have "concat (map (\<lambda>i. [i]) xs) = xs" for xs :: "int list"
    by (induction xs) simp_all
  then show ?thesis by (simp add: DiePerfect_init_def)
qed

lemma call_DieDivider:
  assumes "divider_sides d \<noteq> 0"
  shows "call src n s = (Inr ds, s') \<Longrightarrow>
         \<forall>r\<in>set ds. \<exists>x. true_divide r (divider_source_sides d div divider_sides d) = Inr x
                            \<and> \<lceil>x\<rceil> = g r \<Longrightarrow>
         call (DieDivider_roll src d) n s = (Inr (map g ds), s')"
proof (induction n arbitrary: s ds s')
  case 0
  then show ?case by simp
next
  case (Suc n)
  from Suc.prems(1) obtain r s1 rs where a: "src s = (Inr r, s1)"
    and b: "call src n s1 = (Inr rs, s')" and c: "ds = r # rs"
    by (auto split: prod.splits sum.splits)
  from Suc.prems(2) c obtain x
    where x: "true_divide r (divider_source_sides d div divider_sides d) = Inr x" "\<lceil>x\<rceil> = g r"
    by auto
  from a x assms have "DieDivider_roll src d s = (Inr (g r), s1)"
    by (simp add: DieDivider_roll_def)
  moreover from Suc.prems(2) c
  have "\<forall>r\<in>set rs. \<exists>x. true_divide r (divider_source_sides d div divider_sides d) = Inr x
                          \<and> \<lceil>x\<rceil> = g r"
    by simp
  ultimately show ?case using Suc.IH[OF b] c by simp
qed

lemma ceiling_block:
  assumes "0 < (q::int)"
  shows "\<lceil>rat_of_int r / rat_of_int q\<rceil> = f \<longleftrightarrow> (f - 1) * q < r \<and> r \<le> f * q"
proof -
  have "\<lceil>rat_of_int r / rat_of_int q\<rceil> = f
        \<longleftrightarrow> rat_of_int f - 1 < rat_of_int r / rat_of_int q
            \<and> rat_of_int r / rat_of_int q \<le> rat_of_int f"
    by (rule ceiling_eq_iff)
  also have "\<dots> \<longleftrightarrow> rat_of_int ((f - 1) * q) < rat_of_int r
                     \<and> rat_of_int r \<le> rat_of_int (f * q)"
    using assms by (simp add: pos_less_divide_eq pos_divide_le_eq)
  also have "\<dots> \<longleftrightarrow> (f - 1) * q < r \<and> r \<le> f * q"
    by (simp only: of_int_less_iff of_int_le_iff)
  finally show ?thesis .
qed

lemma count_block:
  assumes "0 < (q::int)" and "1 \<le> f" and "f \<le> t"
  shows "count_list (map (\<lambda>r. \<lceil>rat_of_int r / rat_of_int q\<rceil>) [1..q * t]) f = nat q"
proof -
  have "count_list (map (\<lambda>r. \<lceil>rat_of_int r / rat_of_int q\<rceil>) [1..q * t]) f
        = length (filter (\<lambda>r. \<lceil>rat_of_int r / rat_of_int q\<rceil> = f) [1..q * t])"
    by (simp add: count_list_eq_length_filter comp_def filter_map eq_commute[of f])
  also have "\<dots> = card ({r. \<lceil>rat_of_int r / rat_of_int q\<rceil> = f} \<inter> set [1..q * t])"
    by (rule distinct_length_filter) simp
  also have "{r. \<lceil>rat_of_int r / rat_of_int q\<rceil> = f} \<inter> set [1..q * t]
             = {(f - 1) * q + 1 .. f * q}"
  proof -
    have a: "f * q \<le> q * t" using assms by (simp add: mult.commute)
    have b: "0 \<le> (f - 1) * q" using assms by simp
    have "1 \<le> x \<and> x \<le> q * t" if "(f - 1) * q < x" "x \<le> f * q" for x
      using that a b by linarith
    then show ?thesis
      by (auto simp: ceiling_block[OF assms(1)])
  qed
  also have "card {(f - 1) * q + 1 .. f * q} = nat q"
    by (simp add: algebra_simps)
  finally show ?thesis .
qed

lemma call_DiePerfect_one_die:
  assumes "1 \<le> S"
  shows "call DiePerfect_roll (nat S) (DiePerfect_init S 1)
           = (Inr [1..S], (DiePerfect_init S 1)\<lparr> num_rolls := nat S, cycle_pos := nat S \<rparr>)"
proof -
  let ?d = "DiePerfect_init S 1"
  have r: "rolls ?d = [1..S]" by (rule rolls_one_die)
  have len: "length [1..S] = nat S" using assms by simp
  have ne: "rolls ?d \<noteq> []" using assms r len by auto
  have z: "num_rolls ?d = 0" "cycle_pos ?d = 0"
    by (simp_all add: DiePerfect_init_def)
  have "map (\<lambda>i. [1..S] ! (i mod length [1..S])) [0..<nat S] = map (\<lambda>i. [1..S] ! i) [0..<nat S]"
    by (rule map_cong) (simp_all add: len)
  also have "\<dots> = [1..S]"
    using map_nth[of "[1..S]"] by (simp only: len)
  finally have "map (\<lambda>i. [1..S] ! (i mod length [1..S])) [0..<nat S] = [1..S]" .
  with call_DiePerfect[OF ne, of "nat S"] show ?thesis
    by (simp add: r z)
qed

text \<open>
  Below \<open>2 ^ 53\<close> the double rounding does not show: for a constructed \<^verbatim>\<open>DieDivider\<close> with
  \<open>1 \<le> sides\<close> and \<open>1 \<le> source_sides \<le> 2 ^ 53\<close>, a source roll \<open>r\<close> in
  \<open>[1, source_sides]\<close> gives \<open>\<lceil>r / divisor\<rceil>\<close>, and driven by the enumeration die of one die
  (\<^verbatim>\<open>DiePerfect(sides=source_sides)\<close>, as in \<^verbatim>\<open>TestDieDivider\<close>) for \<open>source_sides\<close> rolls
  every face of \<open>[1, sides]\<close> comes up exactly \<open>source_sides div sides\<close> times.
\<close>

lemma DieDivider_exact_below_2_53:
  assumes "DieDivider_init sides S = Inr d" and "1 \<le> sides" and "1 \<le> S" and "S \<le> 2 ^ 53"
  shows "(src s = (Inr r, s') \<and> 1 \<le> r \<and> r \<le> S \<longrightarrow>
            DieDivider_roll src d s
              = (Inr \<lceil>rat_of_int r / rat_of_int (S div sides)\<rceil>, s'))
       \<and> (\<exists>rs st. call (DieDivider_roll DiePerfect_roll d) (nat S) (DiePerfect_init S 1)
                     = (Inr rs, st)
                 \<and> num_rolls st = nat S \<and> length rs = nat S
                 \<and> (\<forall>f\<in>{1..sides}. count_list rs f = nat (S div sides)))"
proof -
  from assms(1) have nz: "sides \<noteq> 0" and m: "S mod sides = 0"
    and d: "d = \<lparr> divider_sides = sides, divider_source_sides = S \<rparr>"
    by (auto simp: DieDivider_init_def split: if_splits)
  define q where "q = S div sides"
  from m have "sides dvd S" by (simp add: dvd_eq_mod_eq_0)
  then have S: "S = q * sides" by (simp add: q_def)
  have spos: "0 < sides" using assms(2) by simp
  have "0 < q * sides" using S assms(3) by simp
  then have qpos: "0 < q" using spos by (rule zero_less_mult_pos2)
  have "q * 1 \<le> q * sides" using qpos assms(2) by (intro mult_left_mono) simp_all
  with S assms(4) have qle: "q \<le> 2 ^ 53" by simp
  have td: "\<exists>x. true_divide r q = Inr x \<and> \<lceil>x\<rceil> = \<lceil>rat_of_int r / rat_of_int q\<rceil>"
    if "1 \<le> r" "r \<le> S" for r
    using that qpos qle assms(4) by (intro true_divide_ceiling_exact) simp_all
  have roll: "src s = (Inr r, s') \<and> 1 \<le> r \<and> r \<le> S \<longrightarrow>
      DieDivider_roll src d s = (Inr \<lceil>rat_of_int r / rat_of_int q\<rceil>, s')"
  proof
    assume a: "src s = (Inr r, s') \<and> 1 \<le> r \<and> r \<le> S"
    with td[of r] obtain x where "true_divide r q = Inr x"
      "\<lceil>x\<rceil> = \<lceil>rat_of_int r / rat_of_int q\<rceil>" by auto
    with a nz show "DieDivider_roll src d s = (Inr \<lceil>rat_of_int r / rat_of_int q\<rceil>, s')"
      by (simp add: DieDivider_roll_def d q_def)
  qed
  let ?rs = "map (\<lambda>r. \<lceil>rat_of_int r / rat_of_int q\<rceil>) [1..S]"
  let ?st = "(DiePerfect_init S 1)\<lparr> num_rolls := nat S, cycle_pos := nat S \<rparr>"
  have "\<forall>r\<in>set [1..S]. \<exists>x. true_divide r (divider_source_sides d div divider_sides d) = Inr x
            \<and> \<lceil>x\<rceil> = \<lceil>rat_of_int r / rat_of_int q\<rceil>"
    using td by (simp add: d q_def)
  with call_DiePerfect_one_die[OF assms(3)] nz
  have c: "call (DieDivider_roll DiePerfect_roll d) (nat S) (DiePerfect_init S 1) = (Inr ?rs, ?st)"
    by (intro call_DieDivider) (simp_all add: d)
  have cnt: "count_list ?rs f = nat q" if "f \<in> {1..sides}" for f
  proof -
    from that have f: "1 \<le> f" "f \<le> sides" by simp_all
    from count_block[OF qpos f] show ?thesis
      by (simp add: S)
  qed
  have "num_rolls ?st = nat S \<and> length ?rs = nat S" using assms(3) by simp
  with c cnt roll show ?thesis unfolding q_def by blast
qed

lemma DieDivider_d3_from_d6:
  "DieDivider_init 3 6 = Inr \<lparr> divider_sides = 3, divider_source_sides = 6 \<rparr>
   \<and> DieDivider_roll DiePerfect_roll \<lparr> divider_sides = 3, divider_source_sides = 6 \<rparr>
        ((DiePerfect_init 6 1)\<lparr> num_rolls := 4, cycle_pos := 4 \<rparr>)
       = (Inr 3, (DiePerfect_init 6 1)\<lparr> num_rolls := 5, cycle_pos := 5 \<rparr>)
   \<and> (\<exists>rs st. call (DieDivider_roll DiePerfect_roll \<lparr> divider_sides = 3, divider_source_sides = 6 \<rparr>)
                    6 (DiePerfect_init 6 1) = (Inr rs, st)
         \<and> count_list rs 1 = 2 \<and> count_list rs 2 = 2 \<and> count_list rs 3 = 2)"
proof -
  let ?d = "\<lparr> divider_sides = 3, divider_source_sides = 6 \<rparr>"
  let ?s = "(DiePerfect_init 6 1)\<lparr> num_rolls := 4, cycle_pos := 4 \<rparr>"
  let ?s' = "(DiePerfect_init 6 1)\<lparr> num_rolls := 5, cycle_pos := 5 \<rparr>"
  have i: "DieDivider_init 3 6 = Inr ?d"
    by (simp add: DieDivider_init_def)
  have r: "DiePerfect_roll ?s = (Inr 5, ?s')"
    by (simp add: DiePerfect_roll_def rolls_one_die upto.simps)
  have c52: "\<lceil>(5::rat) / 2\<rceil> = 3"
    using ceiling_rat_div[of 5 2] by simp
  from DieDivider_exact_below_2_53[OF i, of DiePerfect_roll ?s 5 ?s'] r c52
  obtain rs st where a: "DieDivider_roll DiePerfect_roll ?d ?s = (Inr 3, ?s')"
    and b: "call (DieDivider_roll DiePerfect_roll ?d) 6 (DiePerfect_init 6 1) = (Inr rs, st)"
    and c: "\<forall>f\<in>{1..3}. count_list rs f = 2"
    by auto
  from c have "count_list rs 1 = 2 \<and> count_list rs 2 = 2 \<and> count_list rs 3 = 2"
    by simp
  with i a b show ?thesis by blast
qed

text \<open>
  C3. \<^verbatim>\<open>DieDivider.roll\<close> takes the ceiling of a quotient that Python has rounded to a
  double, so it does not return \<open>\<lceil>r / divisor\<rceil>\<close> for every source. For a two-sided die
  on a source of \<open>2 ^ 54\<close> sides that rolls \<open>r = 2 ^ 53 + 1\<close>, the quotient
  \<open>(2 ^ 53 + 1) / 2 ^ 53\<close> rounds to \<open>1.0\<close> and the roll returns 1, where
  \<open>\<lceil>r / divisor\<rceil>\<close> is 2. With \<open>sides = source_sides = 2 ^ 54\<close> (divisor 1) the same source
  roll returns \<open>2 ^ 53\<close>, not \<open>2 ^ 53 + 1\<close>. With \<open>sides = source_sides = 2 ^ 1025\<close> a
  source roll of \<open>2 ^ 1024\<close> raises OverflowError.
\<close>

theorem DieDivider_roll_double_rounding:
  "DieDivider_init 2 (2 ^ 54) = Inr \<lparr> divider_sides = 2, divider_source_sides = 2 ^ 54 \<rparr>
   \<and> DieDivider_roll (\<lambda>s::unit. (Inr (2 ^ 53 + 1), s))
         \<lparr> divider_sides = 2, divider_source_sides = 2 ^ 54 \<rparr> ()
       = (Inr 1, ())
   \<and> \<lceil>rat_of_int (2 ^ 53 + 1) / rat_of_int (2 ^ 54 div 2)\<rceil> = 2
   \<and> DieDivider_init (2 ^ 54) (2 ^ 54)
       = Inr \<lparr> divider_sides = 2 ^ 54, divider_source_sides = 2 ^ 54 \<rparr>
   \<and> DieDivider_roll (\<lambda>s::unit. (Inr (2 ^ 53 + 1), s))
         \<lparr> divider_sides = 2 ^ 54, divider_source_sides = 2 ^ 54 \<rparr> ()
       = (Inr (2 ^ 53), ())
   \<and> DieDivider_init (2 ^ 1025) (2 ^ 1025)
       = Inr \<lparr> divider_sides = 2 ^ 1025, divider_source_sides = 2 ^ 1025 \<rparr>
   \<and> DieDivider_roll (\<lambda>s::unit. (Inr (2 ^ 1024), s))
         \<lparr> divider_sides = 2 ^ 1025, divider_source_sides = 2 ^ 1025 \<rparr> ()
       = (Inl OverflowError, ())"
proof -
  have c: "\<lceil>rat_of_int (2 ^ 53 + 1) / rat_of_int (2 ^ 54 div 2)\<rceil> = 2"
    using ceiling_rat_div[of "2 ^ 53 + 1" "2 ^ 54 div 2"] by simp
  have a: "DieDivider_roll (\<lambda>s::unit. (Inr (2 ^ 53 + 1), s))
         \<lparr> divider_sides = 2, divider_source_sides = 2 ^ 54 \<rparr> () = (Inr 1, ())"
    using true_divide_tie_to_one by (simp add: DieDivider_roll_def)
  have b: "DieDivider_roll (\<lambda>s::unit. (Inr (2 ^ 53 + 1), s))
         \<lparr> divider_sides = 2 ^ 54, divider_source_sides = 2 ^ 54 \<rparr> () = (Inr (2 ^ 53), ())"
    using true_divide_tie_to_even by (simp add: DieDivider_roll_def)
  have d: "DieDivider_roll (\<lambda>s::unit. (Inr (2 ^ 1024), s))
         \<lparr> divider_sides = 2 ^ 1025, divider_source_sides = 2 ^ 1025 \<rparr> ()
       = (Inl OverflowError, ())"
    using true_divide_overflow by (simp add: DieDivider_roll_def)
  from a b c d show ?thesis
    by (simp add: DieDivider_init_def)
qed

section \<open>Construction without validation\<close>

lemma small_base_power_le_1:
  assumes "- 1 \<le> (S::int)" and "S \<le> 1"
  shows "S ^ k \<le> 1"
proof -
  have "\<bar>S\<bar> \<le> 1" using assms by simp
  then have "\<bar>S\<bar> ^ k \<le> 1" by (intro power_le_one) simp_all
  then have "\<bar>S ^ k\<bar> \<le> 1" by (simp add: power_abs)
  then show ?thesis by simp
qed

lemma num_dice_loop_diverges:
  assumes "2 \<le> sides" and "- 1 \<le> S" and "S \<le> 1"
  shows "num_dice_loop S sides n = None"
proof (rule num_dice_loop_None, intro allI impI)
  fix k
  from small_base_power_le_1[OF assms(2,3), of k] assms(1) show "S ^ k < sides" by simp
qed

lemma negative_base_reaches:
  assumes "(S::int) \<le> - 2"
  shows "\<exists>m. sides \<le> S ^ m"
proof -
  have "4 \<le> S * S"
    using mult_mono[of 2 "- S" 2 "- S"] assms by simp
  then have "2 \<le> S * S" by simp
  from pow_reaches[OF this] obtain m where "sides \<le> (S * S) ^ m" by blast
  then have "sides \<le> S ^ (2 * m)" by (simp add: power_mult power2_eq_square)
  then show ?thesis by blast
qed

lemma num_dice_loop_nonpositive: "sides \<le> 1 \<Longrightarrow> num_dice_loop S sides 0 = Some 0"
  by (simp add: num_dice_loop.simps)

text \<open>
  C5, as the code has it. Neither \<^verbatim>\<open>DieBase.__init__\<close> nor the constructors of
  \<^verbatim>\<open>DiePower\<close> and \<^verbatim>\<open>DieCombo\<close> check their arguments. With \<open>sides \<ge> 2\<close> and
  \<open>source_sides\<close> one of \<open>-1, 0, 1\<close> the search for \<open>num_dice\<close> never ends: nothing is
  raised and nothing is returned. With \<open>sides \<ge> 2\<close> and \<open>source_sides \<le> -2\<close> both
  constructors return a die. With \<open>sides \<le> 0\<close> \<^verbatim>\<open>DiePower\<close> is built with
  \<open>num_dice = 0\<close>; with \<open>sides < 0\<close> \<^verbatim>\<open>DieCombo\<close> is built with \<open>num_dice = 0\<close> and divider
  \<open>-1\<close>, and with \<open>sides = 0\<close> its division raises ZeroDivisionError, as the remainder of
  \<^verbatim>\<open>DieDivider\<close> does; \<^verbatim>\<open>DieDivider\<close> with \<open>sides < 0\<close> dividing \<open>source_sides\<close> is built.
  A constructor's outcome is a die, an exception or no return, never a die together
  with an exception.
\<close>

theorem construction_unvalidated:
  "(2 \<le> sides \<and> - 1 \<le> S \<and> S \<le> 1 \<longrightarrow>
      DiePower_init sides S = None \<and> DieCombo_init sides S = None)
   \<and> (2 \<le> sides \<and> S \<le> - 2 \<longrightarrow>
      (\<exists>d. DiePower_init sides S = Some (Inr d)) \<and> (\<exists>d. DieCombo_init sides S = Some (Inr d)))
   \<and> (sides \<le> 0 \<longrightarrow>
      DiePower_init sides S
        = Some (Inr \<lparr> power_sides = sides, power_source_sides = S, power_num_dice = 0 \<rparr>))
   \<and> (sides < 0 \<longrightarrow>
      DieCombo_init sides S
        = Some (Inr \<lparr> combo_sides = sides, combo_source_sides = S, combo_num_dice = 0,
                       divider = - 1 \<rparr>))
   \<and> DieCombo_init 0 S = Some (Inl ZeroDivisionError)
   \<and> DieDivider_init 0 S = Inl ZeroDivisionError
   \<and> (sides < 0 \<and> S mod sides = 0 \<longrightarrow>
      DieDivider_init sides S = Inr \<lparr> divider_sides = sides, divider_source_sides = S \<rparr>)"
proof -
  have a: "DiePower_init sides S = None \<and> DieCombo_init sides S = None"
    if "2 \<le> sides" "- 1 \<le> S" "S \<le> 1"
    using that by (simp add: DiePower_init_def DieCombo_init_def num_dice_loop_diverges)
  have b: "(\<exists>d. DiePower_init sides S = Some (Inr d)) \<and> (\<exists>d. DieCombo_init sides S = Some (Inr d))"
    if "2 \<le> sides" "S \<le> - 2"
  proof -
    from negative_base_reaches[OF that(2)] obtain m where "sides \<le> S ^ m" by blast
    from num_dice_loop_Least[OF this] that(1) show ?thesis
      by (simp add: DiePower_init_def DieCombo_init_def)
  qed
  have c: "DiePower_init sides S
        = Some (Inr \<lparr> power_sides = sides, power_source_sides = S, power_num_dice = 0 \<rparr>)"
    if "sides \<le> 0"
    using that by (simp add: DiePower_init_def num_dice_loop_nonpositive)
  have d: "DieCombo_init sides S
        = Some (Inr \<lparr> combo_sides = sides, combo_source_sides = S, combo_num_dice = 0,
                       divider = - 1 \<rparr>)"
    if "sides < 0"
  proof -
    have "(1::int) div sides = - 1"
      using that by (intro div_pos_neg_trivial) auto
    with that show ?thesis
      by (simp add: DieCombo_init_def num_dice_loop_nonpositive)
  qed
  have e: "DieCombo_init 0 S = Some (Inl ZeroDivisionError)"
    by (simp add: DieCombo_init_def num_dice_loop_nonpositive)
  have f: "DieDivider_init 0 S = Inl ZeroDivisionError"
    by (simp add: DieDivider_init_def)
  have g: "DieDivider_init sides S = Inr \<lparr> divider_sides = sides, divider_source_sides = S \<rparr>"
    if "sides < 0" "S mod sides = 0"
    using that by (simp add: DieDivider_init_def)
  show ?thesis
    by (intro conjI impI) (use a b c d e f g in auto)
qed

theorem construction_unvalidated_witness:
  "DiePower_init 16 1 = None \<and> DieCombo_init 16 0 = None
   \<and> (\<exists>d. DiePower_init 16 (- 6) = Some (Inr d))
   \<and> (\<exists>d. DieCombo_init 16 (- 6) = Some (Inr d))
   \<and> DiePower_init (- 3) 6
       = Some (Inr \<lparr> power_sides = - 3, power_source_sides = 6, power_num_dice = 0 \<rparr>)
   \<and> DieCombo_init (- 3) 6
       = Some (Inr \<lparr> combo_sides = - 3, combo_source_sides = 6, combo_num_dice = 0,
                      divider = - 1 \<rparr>)
   \<and> DieDivider_init (- 3) 6 = Inr \<lparr> divider_sides = - 3, divider_source_sides = 6 \<rparr>"
  using construction_unvalidated[of 16 1] construction_unvalidated[of 16 0]
    construction_unvalidated[of 16 "- 6"] construction_unvalidated[of "- 3" 6]
  by simp

text \<open>
  C5 as stated fails: building \<^verbatim>\<open>DiePower\<close> or \<^verbatim>\<open>DieCombo\<close> with \<open>sides = 2\<close> from a
  source of one side raises nothing (it does not return), and building \<^verbatim>\<open>DiePower\<close>
  with \<open>sides = 0\<close> from a source of six sides returns a die.
\<close>

theorem construction_unvalidated_counterexample:
  "DiePower_init 2 1 = None \<and> DieCombo_init 2 1 = None
   \<and> DiePower_init 0 6
       = Some (Inr \<lparr> power_sides = 0, power_source_sides = 6, power_num_dice = 0 \<rparr>)"
  by (simp add: DiePower_init_def DieCombo_init_def num_dice_loop_diverges
      num_dice_loop_nonpositive)

section \<open>Rejected composites of the two converters\<close>

lemma DiePower_rejected_eq:
  assumes "1 \<le> sides" and "sides \<le> S ^ n"
  shows "DiePower_rejected sides S n = nat (S ^ n - sides)"
proof -
  have "DiePower_rejected sides S n = card ({c. c + 1 > sides} \<inter> set [0 .. S ^ n - 1])"
    unfolding DiePower_rejected_def by (rule distinct_length_filter) simp
  also have "{c. c + 1 > sides} \<inter> set [0 .. S ^ n - 1] = {sides .. S ^ n - 1}"
    using assms by auto
  also have "card {sides .. S ^ n - 1} = nat (S ^ n - sides)"
    by simp
  finally show ?thesis .
qed

lemma le_div_iff_int:
  assumes "0 < (q::int)"
  shows "a \<le> c div q \<longleftrightarrow> a * q \<le> c"
proof
  assume "a \<le> c div q"
  then have "a * q \<le> (c div q) * q" using assms by (simp add: mult_right_mono)
  also have "\<dots> \<le> c"
    using assms by (metis div_mult_mod_eq le_add_same_cancel1 pos_mod_sign)
  finally show "a * q \<le> c" .
next
  assume "a * q \<le> c"
  then have "a * q div q \<le> c div q" using assms by (intro zdiv_mono1) auto
  with assms show "a \<le> c div q" by simp
qed

lemma DieCombo_rejected_eq:
  assumes "1 \<le> sides" and "sides \<le> S ^ n"
  shows "DieCombo_rejected sides S n = nat (S ^ n mod sides)"
proof -
  define q where "q = S ^ n div sides"
  have q: "1 \<le> q"
    using zdiv_mono1[OF assms(2), of sides] assms(1) by (simp add: q_def)
  have iff: "sides \<le> c div q \<longleftrightarrow> sides * q \<le> c" for c
    using le_div_iff_int[of q sides c] q by auto
  have nn: "0 \<le> sides * q" using assms(1) q by simp
  have low: "0 \<le> c" if "sides * q \<le> c" for c
    using that nn by simp
  have "DieCombo_rejected sides S n = card ({c. c div q + 1 > sides} \<inter> set [0 .. S ^ n - 1])"
    unfolding DieCombo_rejected_def q_def by (rule distinct_length_filter) simp
  also have "{c. c div q + 1 > sides} \<inter> set [0 .. S ^ n - 1] = {sides * q .. S ^ n - 1}"
    by (auto simp: iff low)
  also have "card {sides * q .. S ^ n - 1} = nat (S ^ n - sides * q)"
    by simp
  also have "S ^ n - sides * q = S ^ n mod sides"
    by (simp add: q_def minus_mult_div_eq_mod)
  finally show ?thesis .
qed

lemma expected_draws_DiePower:
  assumes "1 \<le> sides" and "sides \<le> S ^ n"
  shows "expected_draws n (S ^ n) (DiePower_rejected sides S n)
           = of_nat n * of_int (S ^ n) / of_int sides"
  using assms by (simp add: expected_draws_def DiePower_rejected_eq)

lemma expected_draws_DieCombo:
  assumes "1 \<le> sides" and "sides \<le> S ^ n"
  shows "expected_draws n (S ^ n) (DieCombo_rejected sides S n)
           = of_nat n * of_int (S ^ n) / of_int (sides * (S ^ n div sides))"
proof -
  have "0 \<le> S ^ n mod sides" using assms(1) by simp
  then have "S ^ n - int (nat (S ^ n mod sides)) = sides * (S ^ n div sides)"
    by (simp add: minus_mod_eq_mult_div)
  then show ?thesis
    using assms by (simp only: expected_draws_def DieCombo_rejected_eq)
qed

lemma rejected_ranges:
  assumes "1 \<le> sides" and "num_dice_loop S sides 0 = Some n"
  shows "DieCombo_rejected sides S n = nat (S ^ n mod sides)
       \<and> DiePower_rejected sides S n = nat (S ^ n - sides)
       \<and> DieCombo_rejected sides S n \<le> DiePower_rejected sides S n
       \<and> (DieCombo_rejected sides S n = DiePower_rejected sides S n
            \<longleftrightarrow> S ^ n div sides = 1)
       \<and> expected_draws n (S ^ n) (DieCombo_rejected sides S n)
            \<le> expected_draws n (S ^ n) (DiePower_rejected sides S n)
       \<and> (expected_draws n (S ^ n) (DieCombo_rejected sides S n)
            = expected_draws n (S ^ n) (DiePower_rejected sides S n)
            \<longleftrightarrow> S ^ n div sides = 1)"
proof -
  define m where "m = S ^ n"
  define q where "q = m div sides"
  from num_dice_loop_Some[OF assms(2)] have le: "sides \<le> m"
    and least: "\<forall>k<n. S ^ k < sides" by (simp_all add: m_def)
  have q: "1 \<le> q"
    using zdiv_mono1[OF le, of sides] assms(1) by (simp add: q_def)
  have m: "m = sides * q + m mod sides" by (simp add: q_def)
  have r: "0 \<le> m mod sides" "m mod sides < sides" using assms(1) by simp_all
  have c: "DieCombo_rejected sides S n = nat (m mod sides)"
    using assms(1) le unfolding m_def by (rule DieCombo_rejected_eq)
  have p: "DiePower_rejected sides S n = nat (m - sides)"
    using assms(1) le unfolding m_def by (rule DiePower_rejected_eq)
  have diff: "(m - sides) - m mod sides = sides * (q - 1)"
    using m by (simp add: algebra_simps)
  have "0 \<le> sides * (q - 1)" using assms(1) q by simp
  with diff have le2: "m mod sides \<le> m - sides" by simp
  have eq_iff: "m mod sides = m - sides \<longleftrightarrow> q = 1"
  proof
    assume "m mod sides = m - sides"
    with diff have "sides * (q - 1) = 0" by simp
    with assms(1) show "q = 1" by simp
  next
    assume "q = 1"
    with diff show "m mod sides = m - sides" by simp
  qed
  have cnt_le: "DieCombo_rejected sides S n \<le> DiePower_rejected sides S n"
    using le2 by (simp add: c p)
  have cnt_eq: "DieCombo_rejected sides S n = DiePower_rejected sides S n \<longleftrightarrow> q = 1"
    using eq_iff r(1) le eq_nat_nat_iff[of "m mod sides" "m - sides"] by (simp add: c p)
  have Ep: "expected_draws n m (DiePower_rejected sides S n)
              = of_nat n * of_int m / of_int sides"
    using assms(1) le unfolding m_def by (rule expected_draws_DiePower)
  have Ec: "expected_draws n m (DieCombo_rejected sides S n)
              = of_nat n * of_int m / of_int (sides * q)"
    using assms(1) le unfolding m_def q_def by (rule expected_draws_DieCombo)
  have mpos: "0 < m" using le assms(1) by simp
  have num: "(0::rat) \<le> of_nat n * of_int m" using mpos by simp
  have den: "(of_int sides :: rat) \<le> of_int (sides * q)"
    using assms(1) q by (simp only: of_int_le_iff) (simp add: mult_le_cancel_left1)
  have spos: "(0::rat) < of_int sides" using assms(1) by simp
  have E_le: "expected_draws n m (DieCombo_rejected sides S n)
                \<le> expected_draws n m (DiePower_rejected sides S n)"
    unfolding Ep Ec using num den spos by (intro divide_left_mono) (auto intro: mult_pos_pos order_less_le_trans)
  have n0: "q = 1" if "n = 0"
  proof -
    from that le have "sides \<le> 1" by (simp add: m_def)
    with assms(1) have "sides = 1" by simp
    with that show ?thesis by (simp add: q_def m_def)
  qed
  have E_eq: "expected_draws n m (DieCombo_rejected sides S n)
                = expected_draws n m (DiePower_rejected sides S n) \<longleftrightarrow> q = 1"
  proof
    assume "q = 1"
    then show "expected_draws n m (DieCombo_rejected sides S n)
                = expected_draws n m (DiePower_rejected sides S n)"
      by (simp add: Ep Ec)
  next
    assume e: "expected_draws n m (DieCombo_rejected sides S n)
                = expected_draws n m (DiePower_rejected sides S n)"
    show "q = 1"
    proof (cases "n = 0")
      case True
      then show ?thesis by (rule n0)
    next
      case False
      with mpos have nz: "(of_nat n * of_int m :: rat) \<noteq> 0" by simp
      have qpos: "(0::rat) < of_int (sides * q)" using den spos by simp
      from e have "of_nat n * of_int m / of_int (sides * q)
                     = (of_nat n * of_int m / of_int sides :: rat)"
        by (simp only: Ep Ec)
      with nz spos qpos have "(of_int (sides * q) :: rat) = of_int sides"
        by (simp add: frac_eq_eq)
      then have "sides * q = sides" by (simp only: of_int_eq_iff)
      with assms(1) show ?thesis by simp
    qed
  qed
  from c p cnt_le cnt_eq E_le E_eq show ?thesis
    unfolding m_def q_def by (simp only: simp_thms)
qed

lemma msd_composite_Cons:
  "msd_composite b (x # xs) = b ^ length xs * (x - 1) + msd_composite b xs"
  by (simp add: msd_composite_def sum.lessThan_Suc_shift del: sum.lessThan_Suc)

lemma msd_composite_snoc:
  "msd_composite b (xs @ [x]) = b * msd_composite b xs + (x - 1)"
proof -
  have "(\<Sum>i<length xs. b ^ (length xs - i) * ((xs @ [x]) ! i - 1))
        = (\<Sum>i<length xs. b * (b ^ (length xs - 1 - i) * (xs ! i - 1)))"
  proof (rule sum.cong)
    fix i assume "i \<in> {..<length xs}"
    then have i: "i < length xs" by simp
    then have "length xs - i = Suc (length xs - 1 - i)" by simp
    with i show "b ^ (length xs - i) * ((xs @ [x]) ! i - 1)
                 = b * (b ^ (length xs - 1 - i) * (xs ! i - 1))"
      by (simp add: nth_append)
  qed simp
  then show ?thesis
    by (simp add: msd_composite_def sum_distrib_left)
qed

lemma lsd_composite_Cons:
  "lsd_composite b (x # xs) = (x - 1) + b * (lsd_composite b xs - 1) + 1"
  by (simp add: lsd_composite_def sum.lessThan_Suc_shift sum_distrib_left mult.assoc
      del: sum.lessThan_Suc)

lemma lsd_composite_rev: "lsd_composite b ds - 1 = msd_composite b (rev ds)"
proof (induction ds)
  case Nil
  show ?case by (simp add: lsd_composite_def msd_composite_def)
next
  case (Cons x xs)
  then show ?case
    by (simp add: lsd_composite_Cons msd_composite_snoc)
qed

lemma map_add_upto: "map (\<lambda>c. a + c) [i..j] = [a + i .. a + j]"
proof (induction i j rule: upto.induct)
  case (1 i j)
  show ?case
  proof (cases "i \<le> j")
    case True
    with 1 show ?thesis by (simp add: upto_rec1[of i j] upto_rec1[of "a + i" "a + j"] add.assoc)
  next
    case False
    then show ?thesis by simp
  qed
qed

lemma concat_blocks:
  assumes "0 \<le> (m::int)"
  shows "concat (map (\<lambda>x. [m * (x - 1) .. m * x - 1]) [1..int k]) = [0 .. m * int k - 1]"
proof (induction k)
  case 0
  show ?case by simp
next
  case (Suc k)
  have a: "[1..int (Suc k)] = [1..int k] @ [int k + 1]"
    using upto_rec2[of 1 "int k + 1"] by (simp add: add.commute)
  have "[0 .. m * int (Suc k) - 1] = [0 .. m * int k - 1] @ [m * int k .. m * int (Suc k) - 1]"
    using upto_split1[of 0 "m * int k" "m * int (Suc k) - 1"] assms
    by (cases "m = 0") (simp_all add: algebra_simps)
  with Suc.IH a show ?case by (simp add: algebra_simps)
qed

lemma batches_Suc:
  "batches S (Suc n) = concat (map (\<lambda>x. map (Cons x) (batches S n)) [1..S])"
  by (simp add: batches_def)

lemma batches_length: "rs \<in> set (batches S n) \<Longrightarrow> length rs = n"
  unfolding batches_def by (drule in_set_product_lists_length) simp

lemma msd_composite_batches:
  assumes "0 \<le> S"
  shows "map (msd_composite S) (batches S n) = [0 .. S ^ n - 1]"
proof (induction n)
  case 0
  show ?case by (simp add: batches_def msd_composite_def upto.simps)
next
  case (Suc n)
  have "map (msd_composite S) (batches S (Suc n))
        = concat (map (\<lambda>x. map (\<lambda>rs. S ^ n * (x - 1) + msd_composite S rs) (batches S n)) [1..S])"
    by (simp add: batches_Suc map_concat comp_def msd_composite_Cons batches_length
        cong: map_cong)
  also have "\<dots> = concat (map (\<lambda>x. map (\<lambda>c. S ^ n * (x - 1) + c)
                                     (map (msd_composite S) (batches S n))) [1..S])"
    by (simp add: comp_def)
  also have "\<dots> = concat (map (\<lambda>x. [S ^ n * (x - 1) .. S ^ n * x - 1]) [1..S])"
  proof -
    have "map (\<lambda>c. S ^ n * (x - 1) + c) [0 .. S ^ n - 1] = [S ^ n * (x - 1) .. S ^ n * x - 1]"
      for x
      by (simp only: map_add_upto) (simp add: algebra_simps)
    then show ?thesis by (simp only: Suc.IH)
  qed
  also have "\<dots> = [0 .. S ^ n * S - 1]"
    using concat_blocks[of "S ^ n" "nat S"] assms by simp
  finally show ?case by (simp add: mult.commute)
qed

lemma batches_set: "set (batches S n) = {rs. length rs = n \<and> set rs \<subseteq> {1..S}}"
proof -
  have "list_all2 (\<lambda>x ys. x \<in> set ys) rs (replicate n [1..S])
        \<longleftrightarrow> length rs = n \<and> set rs \<subseteq> {1..S}" for rs
    by (auto simp: list_all2_conv_all_nth subset_eq all_set_conv_all_nth)
  then show ?thesis
    by (simp add: batches_def product_lists_set)
qed

lemma batches_distinct: "distinct (batches S n)"
  unfolding batches_def by (rule distinct_product_lists) simp

lemma batches_count_rev:
  "length (filter (\<lambda>rs. Q (msd_composite S (rev rs))) (batches S n))
   = length (filter (\<lambda>rs. Q (msd_composite S rs)) (batches S n))"
proof -
  let ?B = "set (batches S n)"
  have "length (filter (\<lambda>rs. Q (msd_composite S (rev rs))) (batches S n))
        = card ({rs. Q (msd_composite S (rev rs))} \<inter> ?B)"
    by (rule distinct_length_filter) (rule batches_distinct)
  also have "{rs. Q (msd_composite S (rev rs))} \<inter> ?B
             = rev ` ({rs. Q (msd_composite S rs)} \<inter> ?B)"
  proof (intro set_eqI iffI)
    fix rs assume "rs \<in> {rs. Q (msd_composite S (rev rs))} \<inter> ?B"
    then have "rev rs \<in> {rs. Q (msd_composite S rs)} \<inter> ?B"
      by (simp add: batches_set)
    then have "rev (rev rs) \<in> rev ` ({rs. Q (msd_composite S rs)} \<inter> ?B)"
      by (rule imageI)
    then show "rs \<in> rev ` ({rs. Q (msd_composite S rs)} \<inter> ?B)" by simp
  next
    fix rs assume "rs \<in> rev ` ({rs. Q (msd_composite S rs)} \<inter> ?B)"
    then show "rs \<in> {rs. Q (msd_composite S (rev rs))} \<inter> ?B"
      by (auto simp: batches_set)
  qed
  also have "card (rev ` ({rs. Q (msd_composite S rs)} \<inter> ?B))
             = card ({rs. Q (msd_composite S rs)} \<inter> ?B)"
    by (rule card_image) (simp add: inj_on_def)
  also have "\<dots> = length (filter (\<lambda>rs. Q (msd_composite S rs)) (batches S n))"
    by (rule distinct_length_filter[symmetric]) (rule batches_distinct)
  finally show ?thesis .
qed

lemma batches_count_msd:
  assumes "0 \<le> S"
  shows "length (filter (\<lambda>rs. Q (msd_composite S rs)) (batches S n))
         = length (filter Q [0 .. S ^ n - 1])"
proof -
  have "length (filter Q (map (msd_composite S) (batches S n)))
        = length (filter (\<lambda>rs. Q (msd_composite S rs)) (batches S n))"
    by (simp add: filter_map comp_def)
  then show ?thesis by (simp add: msd_composite_batches[OF assms])
qed

lemma DiePower_rejected_batches_eq:
  assumes "0 \<le> power_source_sides d"
  shows "DiePower_rejected_batches d
         = DiePower_rejected (power_sides d) (power_source_sides d) (power_num_dice d)"
proof -
  let ?S = "power_source_sides d"
  have "DiePower_rejected_batches d
        = length (filter (\<lambda>rs. (\<lambda>c. c + 1 > power_sides d) (msd_composite ?S (rev rs)))
                         (batches ?S (power_num_dice d)))"
    unfolding DiePower_rejected_batches_def DiePower_value_lsd
    by (simp add: lsd_composite_rev[symmetric])
  also have "\<dots> = length (filter (\<lambda>rs. (\<lambda>c. c + 1 > power_sides d) (msd_composite ?S rs))
                                (batches ?S (power_num_dice d)))"
    by (rule batches_count_rev)
  also have "\<dots> = length (filter (\<lambda>c. c + 1 > power_sides d) [0 .. ?S ^ power_num_dice d - 1])"
    using assms by (rule batches_count_msd)
  finally show ?thesis by (simp add: DiePower_rejected_def)
qed

lemma DieCombo_rejected_batches_eq:
  assumes "0 \<le> combo_source_sides d"
    and "divider d = combo_source_sides d ^ combo_num_dice d div combo_sides d"
  shows "DieCombo_rejected_batches d
         = DieCombo_rejected (combo_sides d) (combo_source_sides d) (combo_num_dice d)"
proof -
  let ?S = "combo_source_sides d"
  have "filter (\<lambda>rs. DieCombo_raw d rs div divider d + 1 > combo_sides d)
               (batches ?S (combo_num_dice d))
        = filter (\<lambda>rs. msd_composite ?S rs div divider d + 1 > combo_sides d)
               (batches ?S (combo_num_dice d))"
    by (rule filter_cong) (simp_all add: DieCombo_raw_msd batches_length)
  then have "DieCombo_rejected_batches d
        = length (filter (\<lambda>rs. (\<lambda>c. c div divider d + 1 > combo_sides d) (msd_composite ?S rs))
                         (batches ?S (combo_num_dice d)))"
    by (simp add: DieCombo_rejected_batches_def)
  also have "\<dots> = length (filter (\<lambda>c. c div divider d + 1 > combo_sides d)
                                [0 .. ?S ^ combo_num_dice d - 1])"
    using assms(1) by (rule batches_count_msd)
  finally show ?thesis by (simp add: DieCombo_rejected_def assms(2))
qed

lemma DiePower_init_Some:
  assumes "DiePower_init sides S = Some (Inr d)"
  shows "power_sides d = sides" "power_source_sides d = S"
    "num_dice_loop S sides 0 = Some (power_num_dice d)"
  using assms by (auto simp: DiePower_init_def split: option.splits)

lemma DieCombo_init_num_dice:
  assumes "DieCombo_init sides S = Some (Inr d)"
  shows "num_dice_loop S sides 0 = Some (combo_num_dice d)"
  using assms by (auto simp: DieCombo_init_def split: option.splits if_splits)

text \<open>
  C4, amended. Let \<open>sides \<ge> 1\<close>, \<open>source_sides \<ge> 0\<close> and let both converters be
  constructed; they have the same \<open>num_dice = n\<close>. Of the \<open>source_sides ^ n\<close> batches
  of draws, \<^verbatim>\<open>DieCombo.roll\<close> rejects \<open>source_sides ^ n mod sides\<close> and \<^verbatim>\<open>DiePower.roll\<close>
  rejects \<open>source_sides ^ n - sides\<close>; these are the sizes of the rejected regions
  of the raw-composite range \<open>[0, source_sides ^ n - 1]\<close>. The former is at most the
  latter, and so is the expected number of source draws per accepted roll; in both
  comparisons equality holds exactly when the divider \<open>source_sides ^ n div sides\<close> is
  1, that is when \<open>source_sides ^ n < 2 * sides\<close>.
\<close>

theorem combo_rejects_fewer:
  assumes "1 \<le> sides" and "0 \<le> S"
    and "DiePower_init sides S = Some (Inr dp)" and "DieCombo_init sides S = Some (Inr dc)"
  shows "combo_num_dice dc = power_num_dice dp
       \<and> divider dc = S ^ combo_num_dice dc div sides
       \<and> DieCombo_rejected_batches dc = DieCombo_rejected sides S (combo_num_dice dc)
       \<and> DiePower_rejected_batches dp = DiePower_rejected sides S (power_num_dice dp)
       \<and> DieCombo_rejected_batches dc = nat (S ^ combo_num_dice dc mod sides)
       \<and> DiePower_rejected_batches dp = nat (S ^ power_num_dice dp - sides)
       \<and> DieCombo_rejected_batches dc \<le> DiePower_rejected_batches dp
       \<and> (DieCombo_rejected_batches dc = DiePower_rejected_batches dp \<longleftrightarrow> divider dc = 1)
       \<and> expected_draws (combo_num_dice dc) (S ^ combo_num_dice dc) (DieCombo_rejected_batches dc)
            \<le> expected_draws (power_num_dice dp) (S ^ power_num_dice dp)
                 (DiePower_rejected_batches dp)
       \<and> (expected_draws (combo_num_dice dc) (S ^ combo_num_dice dc)
              (DieCombo_rejected_batches dc)
            = expected_draws (power_num_dice dp) (S ^ power_num_dice dp)
                (DiePower_rejected_batches dp)
            \<longleftrightarrow> divider dc = 1)"
proof -
  note p = DiePower_init_Some[OF assms(3)]
  note c = DieCombo_init_Some[OF assms(4)]
  define n where "n = power_num_dice dp"
  have nc: "combo_num_dice dc = n"
    using DieCombo_init_num_dice[OF assms(4)] p(3) by (simp add: n_def)
  have loop: "num_dice_loop S sides 0 = Some n" using p(3) by (simp add: n_def)
  have cb: "DieCombo_rejected_batches dc = DieCombo_rejected sides S n"
    using DieCombo_rejected_batches_eq[of dc] assms(2) c nc by simp
  have pb: "DiePower_rejected_batches dp = DiePower_rejected sides S n"
    using DiePower_rejected_batches_eq[of dp] assms(2) p by (simp add: n_def)
  have dv: "divider dc = S ^ n div sides" using c(6) nc by simp
  show ?thesis
    unfolding n_def[symmetric] nc cb pb dv
    using rejected_ranges[OF assms(1) loop] by blast
qed

theorem combo_rejects_fewer_witness:
  "DiePower_init 16 6
     = Some (Inr \<lparr> power_sides = 16, power_source_sides = 6, power_num_dice = 2 \<rparr>)
   \<and> DieCombo_init 16 6
     = Some (Inr \<lparr> combo_sides = 16, combo_source_sides = 6, combo_num_dice = 2, divider = 2 \<rparr>)
   \<and> DieCombo_rejected_batches
        \<lparr> combo_sides = 16, combo_source_sides = 6, combo_num_dice = 2, divider = 2 \<rparr> = 4
   \<and> DiePower_rejected_batches
        \<lparr> power_sides = 16, power_source_sides = 6, power_num_dice = 2 \<rparr> = 20"
proof -
  have h: "(1::int) \<le> 16" "(0::int) \<le> 6" by simp_all
  note t = combo_rejects_fewer[OF h DiePower_init_16_6 DieCombo_init_16_6]
  from t have a: "DieCombo_rejected_batches
        \<lparr> combo_sides = 16, combo_source_sides = 6, combo_num_dice = 2, divider = 2 \<rparr> = 4"
    by simp
  from t have b: "DiePower_rejected_batches
        \<lparr> power_sides = 16, power_source_sides = 6, power_num_dice = 2 \<rparr> = 20"
    by simp
  from a b DiePower_init_16_6 DieCombo_init_16_6 show ?thesis by (intro conjI)
qed

text \<open>
  C4 as stated fails in its equality clause: for \<open>sides = 5\<close> from a source of six sides
  (\<open>num_dice = 1\<close>) both converters reject one composite of six and have the same
  expected number of draws, while \<open>6 mod 5 = 1\<close> is not 0.
\<close>

theorem combo_rejects_fewer_counterexample:
  "DiePower_init 5 6
     = Some (Inr \<lparr> power_sides = 5, power_source_sides = 6, power_num_dice = 1 \<rparr>)
   \<and> DieCombo_init 5 6
     = Some (Inr \<lparr> combo_sides = 5, combo_source_sides = 6, combo_num_dice = 1, divider = 1 \<rparr>)
   \<and> DiePower_rejected_batches
        \<lparr> power_sides = 5, power_source_sides = 6, power_num_dice = 1 \<rparr> = 1
   \<and> DieCombo_rejected_batches
        \<lparr> combo_sides = 5, combo_source_sides = 6, combo_num_dice = 1, divider = 1 \<rparr> = 1
   \<and> DiePower_rejected 5 6 1 = 1 \<and> DieCombo_rejected 5 6 1 = 1
   \<and> expected_draws 1 (6 ^ 1) 1 = 6 / 5
   \<and> (6::int) ^ 1 mod 5 = 1"
proof -
  have a: "DiePower_init 5 6
     = Some (Inr \<lparr> power_sides = 5, power_source_sides = 6, power_num_dice = 1 \<rparr>)"
    by (simp add: DiePower_init_def num_dice_loop.simps)
  have b: "DieCombo_init 5 6
     = Some (Inr \<lparr> combo_sides = 5, combo_source_sides = 6, combo_num_dice = 1, divider = 1 \<rparr>)"
    by (simp add: DieCombo_init_def num_dice_loop.simps)
  have c: "DiePower_rejected_batches
        \<lparr> power_sides = 5, power_source_sides = 6, power_num_dice = 1 \<rparr> = 1"
    by (simp add: DiePower_rejected_batches_def batches_def DiePower_value_def upto.simps
        enumerate_eq_zip)
  have d: "DieCombo_rejected_batches
        \<lparr> combo_sides = 5, combo_source_sides = 6, combo_num_dice = 1, divider = 1 \<rparr> = 1"
    by (simp add: DieCombo_rejected_batches_def batches_def DieCombo_raw_def upto.simps
        enumerate_eq_zip)
  have e: "DiePower_rejected 5 6 1 = 1" "DieCombo_rejected 5 6 1 = 1"
    by (simp_all add: DiePower_rejected_def DieCombo_rejected_def upto.simps)
  have f: "expected_draws 1 (6 ^ 1) 1 = 6 / 5"
    by (simp add: expected_draws_def)
  from a b c d e f show ?thesis by simp
qed

end
